theory Spec2Isabelle
  imports Main
begin

section \<open>The healthcare ETL pipeline: data model and stages\<close>

text \<open>
  The program \<^verbatim>\<open>healthcare_etl_analytics.py\<close> is a straight-line PySpark script: it reads
  two CSV files, lowercases the column names, stamps a \<^verbatim>\<open>patient_id\<close> on every patient
  row, derives \<^verbatim>\<open>age_lower\<close> from the bucket label of every readmission row, joins the two
  tables on \<^verbatim>\<open>p.age BETWEEN r.age_lower AND r.age_lower + 9\<close>, selects 32 columns, prints
  a sample, two counts and seven reports, and writes the result as Parquet.

  The model is a shallow embedding: every stage is a HOL function on tables, and the
  library calls the script makes are given the meaning they have in a Spark session with
  the script's configuration (only \<^verbatim>\<open>spark.driver.memory\<close> is set, so ANSI mode is off as
  in every Spark release before 4.0: a cast that fails yields null and integer addition
  wraps around).
\<close>

subsection \<open>Cells, tables and errors\<close>

text \<open>
  A cell of a table read with \<^verbatim>\<open>inferSchema=True\<close>: null, an integer (columns of type
  integer or long), a string, or a value of another inferred type (double, date,
  timestamp), which the script only carries through and which is kept as its text.
\<close>

datatype cell = NullC | IntC int | StrC string | OtherC string

text \<open>The only exception the stages up to the sink can raise: a column that does not resolve.\<close>

datatype error = AnalysisException string

text \<open>
  A DataFrame: its column names and its rows, grouped in the partitions Spark holds them
  in (for a CSV file, consecutive splits of the file, in file order).
\<close>

record dataframe =
  columns :: "string list"
  partitions :: "cell list list list"

definition rows_of :: "dataframe \<Rightarrow> cell list list" where
  "rows_of df = concat (partitions df)"

text \<open>
  \<^verbatim>\<open>spark.read.csv(path, header=True, inferSchema=True)\<close>: in the default permissive mode
  every row has exactly one cell per header column (missing cells are null, surplus cells
  are dropped).
\<close>

definition fit :: "nat \<Rightarrow> cell list \<Rightarrow> cell list" where
  "fit n row = take n (row @ replicate (n - length row) NullC)"

definition read_csv :: "string list \<Rightarrow> cell list list list \<Rightarrow> dataframe" where
  "read_csv header splits =
     \<lparr> columns = header, partitions = map (map (fit (length header))) splits \<rparr>"

subsection \<open>Stage 3: normalised column names\<close>

text \<open>\<^verbatim>\<open>c.lower().replace(" ", "_")\<close> on ASCII column names.\<close>

definition lower_char :: "char \<Rightarrow> char" where
  "lower_char c =
     (case map_of (zip ''ABCDEFGHIJKLMNOPQRSTUVWXYZ'' ''abcdefghijklmnopqrstuvwxyz'') c of
        Some l \<Rightarrow> l
      | None \<Rightarrow> c)"

definition normalize_name :: "string \<Rightarrow> string" where
  "normalize_name c = map (\<lambda>x. if x = CHR '' '' then CHR ''_'' else x) (map lower_char c)"

definition toDF :: "string list \<Rightarrow> dataframe \<Rightarrow> dataframe" where
  "toDF names df = df \<lparr> columns := names \<rparr>"

subsection \<open>Column access\<close>

definition cell_at :: "cell list \<Rightarrow> nat \<Rightarrow> cell" where
  "cell_at row i = (if i < length row then row ! i else NullC)"

text \<open>
  A column reference resolves to the position of the one column of that name; no such
  column, or more than one, raises. \<open>shown\<close> is the reference as the message prints it.
  Spark compares column names without regard to case; the names compared here are the
  normalised, lowercase ones and the lowercase names the script writes, so the comparison
  is equality.
\<close>

definition resolve :: "'a list \<Rightarrow> 'a \<Rightarrow> string \<Rightarrow> error + nat" where
  "resolve cols c shown =
     (case filter (\<lambda>i. cols ! i = c) [0 ..< length cols] of
        [] \<Rightarrow> Inl (AnalysisException (''cannot resolve '' @ shown))
      | [i] \<Rightarrow> Inr i
      | _ \<Rightarrow> Inl (AnalysisException (''ambiguous reference '' @ shown)))"

text \<open>
  \<^verbatim>\<open>df.withColumn(name, expr)\<close>: the column replaces every column of that name, or is
  appended. The expression may depend on the partition index and on the position of the
  row in its partition (as \<^verbatim>\<open>monotonically_increasing_id()\<close> does) and on the row.
\<close>

definition set_column :: "string list \<Rightarrow> string \<Rightarrow> cell \<Rightarrow> cell list \<Rightarrow> cell list" where
  "set_column cols name v row =
     (if name \<in> set cols then map (\<lambda>(c, x). if c = name then v else x) (zip cols row)
      else row @ [v])"

definition with_column ::
  "string \<Rightarrow> (nat \<Rightarrow> nat \<Rightarrow> cell list \<Rightarrow> cell) \<Rightarrow> dataframe \<Rightarrow> dataframe" where
  "with_column name f df =
     \<lparr> columns = (if name \<in> set (columns df) then columns df else columns df @ [name]),
       partitions =
         map (\<lambda>(k, part). map (\<lambda>(j, row). set_column (columns df) name (f k j row) row)
                                (enumerate 0 part))
             (enumerate 0 (partitions df)) \<rparr>"

subsection \<open>Machine integers\<close>

text \<open>
  Spark's \<^verbatim>\<open>integer\<close> is a 32-bit and its \<^verbatim>\<open>long\<close> a 64-bit two's complement number; with
  ANSI mode off their arithmetic wraps around.
\<close>

definition wrap32 :: "int \<Rightarrow> int" where
  "wrap32 x = (x + 2 ^ 31) mod 2 ^ 32 - 2 ^ 31"

definition wrap64 :: "int \<Rightarrow> int" where
  "wrap64 x = (x + 2 ^ 63) mod 2 ^ 64 - 2 ^ 63"

subsection \<open>Stage 4: the identifier assigner\<close>

text \<open>
  \<^verbatim>\<open>monotonically_increasing_id()\<close>: the partition index shifted left by 33 bits, plus the
  position of the row in its partition, as a long.
\<close>

definition monotonically_increasing_id :: "nat \<Rightarrow> nat \<Rightarrow> int" where
  "monotonically_increasing_id k j = wrap64 (wrap64 (int k * 2 ^ 33) + int j)"

definition patients_df :: "string list \<Rightarrow> cell list list list \<Rightarrow> dataframe" where
  "patients_df header splits =
     (let df = read_csv header splits;
          df = toDF (map normalize_name (columns df)) df
      in with_column ''patient_id'' (\<lambda>k j row. IntC (monotonically_increasing_id k j)) df)"


subsection \<open>Stage 5: the interval parser\<close>

text \<open>
  The pattern \<^verbatim>\<open>\[(\d+)-\d+\)\<close> uses literal characters, the class \<^verbatim>\<open>\d\<close> (an ASCII
  digit, as \<^verbatim>\<open>java.util.regex\<close> reads it without flags), the greedy quantifier \<^verbatim>\<open>+\<close> and
  one capturing group. \<open>matches ps s\<close> lists, in the order a backtracking matcher tries
  them, the remainders of \<open>s\<close> after each way of matching the pieces \<open>ps\<close> at its start.
\<close>

datatype atom = Chr char | Digit

datatype piece = One atom | Plus atom

definition is_digit :: "char \<Rightarrow> bool" where
  "is_digit c = (c \<in> set ''0123456789'')"

fun atom_ok :: "atom \<Rightarrow> char \<Rightarrow> bool" where
  "atom_ok (Chr c) x = (x = c)"
| "atom_ok Digit x = is_digit x"

fun matches :: "piece list \<Rightarrow> string \<Rightarrow> string list" where
  "matches [] s = [s]"
| "matches (One a # ps) s =
     (case s of [] \<Rightarrow> [] | c # t \<Rightarrow> if atom_ok a c then matches ps t else [])"
| "matches (Plus a # ps) s =
     concat (map (\<lambda>k. matches ps (drop k s))
                 (rev [1 ..< Suc (length (takeWhile (atom_ok a) s))]))"

text \<open>A pattern with one capturing group: the pieces before it, inside it and after it.\<close>

record pattern =
  before :: "piece list"
  group1 :: "piece list"
  after :: "piece list"

definition age_pattern :: pattern where
  "age_pattern = \<lparr> before = [One (Chr CHR ''['')], group1 = [Plus Digit],
                   after = [One (Chr CHR ''-''), Plus Digit, One (Chr CHR '')'')] \<rparr>"

text \<open>The texts of group 1 over all matches of the pattern at the start of \<open>s\<close>, preferred first.\<close>

definition match_here :: "pattern \<Rightarrow> string \<Rightarrow> string list" where
  "match_here pat s =
     concat (map (\<lambda>r1. concat (map (\<lambda>r2. map (\<lambda>r3. take (length r1 - length r2) r1)
                                              (matches (after pat) r2))
                                  (matches (group1 pat) r1)))
                 (matches (before pat) s))"

text \<open>\<^verbatim>\<open>Matcher.find()\<close>: the match at the leftmost position that has one.\<close>

fun find_first :: "pattern \<Rightarrow> string \<Rightarrow> string option" where
  "find_first pat s =
     (case match_here pat s of
        g # _ \<Rightarrow> Some g
      | [] \<Rightarrow> (case s of [] \<Rightarrow> None | _ # t \<Rightarrow> find_first pat t))"

declare find_first.simps [simp del]

text \<open>\<^verbatim>\<open>regexp_extract(s, pattern, 1)\<close>: group 1 of the first match, the empty string if none.\<close>

definition regexp_extract :: "string \<Rightarrow> pattern \<Rightarrow> string" where
  "regexp_extract s pat = (case find_first pat s of None \<Rightarrow> [] | Some g \<Rightarrow> g)"

definition digit_value :: "char \<Rightarrow> int" where
  "digit_value c = int (of_char c) - 48"

definition decimal_value :: "string \<Rightarrow> int" where
  "decimal_value s = foldl (\<lambda>acc c. 10 * acc + digit_value c) 0 s"

text \<open>
  \<^verbatim>\<open>.cast("integer")\<close> on the strings \<^verbatim>\<open>regexp_extract\<close> returns here, the empty string and
  strings of digits: null for the empty string and for a number above 2147483647.
\<close>

definition cast_integer :: "string \<Rightarrow> int option" where
  "cast_integer s =
     (if s \<noteq> [] \<and> list_all is_digit s \<and> decimal_value s \<le> 2147483647
      then Some (decimal_value s) else None)"

definition interval_parser :: "string \<Rightarrow> int option" where
  "interval_parser s = cast_integer (regexp_extract s age_pattern)"

text \<open>
  The \<^verbatim>\<open>age_lower\<close> cell of a readmission row. A null label gives null; a label that is not
  a string is a number or a date, whose text has no bracket, and gives null too.
\<close>

fun interval_of_cell :: "cell \<Rightarrow> cell" where
  "interval_of_cell (StrC s) = (case interval_parser s of Some n \<Rightarrow> IntC n | None \<Rightarrow> NullC)"
| "interval_of_cell _ = NullC"

definition readmissions_df :: "string list \<Rightarrow> cell list list list \<Rightarrow> error + dataframe" where
  "readmissions_df header splits =
     (let df = read_csv header splits;
          df = toDF (map normalize_name (columns df)) df
      in case resolve (columns df) ''age'' ''age'' of
           Inl e \<Rightarrow> Inl e
         | Inr i \<Rightarrow> Inr (with_column ''age_lower''
                            (\<lambda>k j row. interval_of_cell (cell_at row i)) df))"

subsection \<open>Stage 7: the range join\<close>

text \<open>
  SQL comparisons are three-valued: a comparison with null is null. \<^verbatim>\<open>age_lower\<close> is an
  integer column, so \<^verbatim>\<open>col("r.age_lower") + 9\<close> is a 32-bit addition.

  The comparisons are those of an integer \<^verbatim>\<open>age\<close> column (integer or long, with nulls), the
  type the data model gives a patient's age. When the file makes Spark infer another type
  for \<^verbatim>\<open>age\<close> (double or string), Spark casts the age for the comparison; that cast is not
  part of this model, where such a cell compares as null. Every statement below about
  which rows join is therefore made for patient tables that satisfy
  \<open>integer_column ''age''\<close>.
\<close>

fun add_integer :: "cell \<Rightarrow> int \<Rightarrow> cell" where
  "add_integer (IntC a) b = IntC (wrap32 (a + b))"
| "add_integer _ b = NullC"

fun ge_cell :: "cell \<Rightarrow> cell \<Rightarrow> bool option" where
  "ge_cell (IntC a) (IntC b) = Some (a \<ge> b)"
| "ge_cell _ _ = None"

fun le_cell :: "cell \<Rightarrow> cell \<Rightarrow> bool option" where
  "le_cell (IntC a) (IntC b) = Some (a \<le> b)"
| "le_cell _ _ = None"

fun and3 :: "bool option \<Rightarrow> bool option \<Rightarrow> bool option" where
  "and3 (Some False) _ = Some False"
| "and3 _ (Some False) = Some False"
| "and3 (Some True) (Some True) = Some True"
| "and3 _ _ = None"

text \<open>\<^verbatim>\<open>v.between(lo, hi)\<close> is \<^verbatim>\<open>(v >= lo) AND (v <= hi)\<close>.\<close>

definition between :: "cell \<Rightarrow> cell \<Rightarrow> cell \<Rightarrow> bool option" where
  "between v lo hi = and3 (ge_cell v lo) (le_cell v hi)"

text \<open>The join condition on a patient row and a readmission row, given where the columns are.\<close>

definition join_condition :: "nat \<Rightarrow> nat \<Rightarrow> cell list \<Rightarrow> cell list \<Rightarrow> bool option" where
  "join_condition i j pr rr =
     between (cell_at pr i) (cell_at rr j) (add_integer (cell_at rr j) 9)"

text \<open>
  The joined table: the columns of both sides under their aliases \<^verbatim>\<open>p\<close> and \<^verbatim>\<open>r\<close>, and one
  row for every pair of rows on which the condition is true. Spark fixes no row order for
  a join; the model lists the pairs patient by patient.
\<close>

record joined =
  qcolumns :: "(string \<times> string) list"
  jrows :: "cell list list"

definition inner_join :: "dataframe \<Rightarrow> dataframe \<Rightarrow> error + joined" where
  "inner_join p r =
     (case resolve (columns p) ''age'' ''p.age'' of
        Inl e \<Rightarrow> Inl e
      | Inr i \<Rightarrow>
         (case resolve (columns r) ''age_lower'' ''r.age_lower'' of
            Inl e \<Rightarrow> Inl e
          | Inr j \<Rightarrow>
              Inr \<lparr> qcolumns = map (Pair ''p'') (columns p) @ map (Pair ''r'') (columns r),
                    jrows = concat (map (\<lambda>pr. map (\<lambda>rr. pr @ rr)
                                      (filter (\<lambda>rr. join_condition i j pr rr = Some True)
                                              (rows_of r)))
                                  (rows_of p)) \<rparr>))"

definition joined_df ::
  "string list \<Rightarrow> cell list list list \<Rightarrow> string list \<Rightarrow> cell list list list \<Rightarrow> error + joined"
  where
  "joined_df ph ps rh rs =
     (case readmissions_df rh rs of
        Inl e \<Rightarrow> Inl e
      | Inr r \<Rightarrow> inner_join (patients_df ph ps) r)"

subsection \<open>Stage 8: the selected columns\<close>

fun resolve_all :: "(string \<times> string) list \<Rightarrow> (string \<times> string) list \<Rightarrow> error + nat list" where
  "resolve_all qcols [] = Inr []"
| "resolve_all qcols (c # cs) =
     (case resolve qcols c (fst c @ ''.'' @ snd c) of
        Inl e \<Rightarrow> Inl e
      | Inr i \<Rightarrow> (case resolve_all qcols cs of Inl e \<Rightarrow> Inl e | Inr is \<Rightarrow> Inr (i # is)))"

text \<open>\<^verbatim>\<open>joined_df.select(col("p.patient_id"), ...)\<close>: each output column is named by the
  unqualified name (for \<^verbatim>\<open>p.age\<close>, by its alias \<^verbatim>\<open>age\<close>, the same name).\<close>

definition select :: "(string \<times> string) list \<Rightarrow> joined \<Rightarrow> error + dataframe" where
  "select cs j =
     (case resolve_all (qcolumns j) cs of
        Inl e \<Rightarrow> Inl e
      | Inr is \<Rightarrow> Inr \<lparr> columns = map snd cs,
                        partitions = [map (\<lambda>row. map (cell_at row) is) (jrows j)] \<rparr>)"

definition selected :: "(string \<times> string) list" where
  "selected =
     map (Pair ''p'') [''patient_id'', ''name'', ''age'', ''gender'', ''blood_type'',
        ''medical_condition'', ''date_of_admission'', ''doctor'', ''hospital'',
        ''insurance_provider'', ''billing_amount'', ''room_number'', ''admission_type'',
        ''discharge_date'', ''medication'', ''test_results''] @
     map (Pair ''r'') [''time_in_hospital'', ''n_lab_procedures'', ''n_procedures'',
        ''n_medications'', ''n_outpatient'', ''n_inpatient'', ''n_emergency'',
        ''medical_specialty'', ''diag_1'', ''diag_2'', ''diag_3'', ''glucose_test'',
        ''a1ctest'', ''change'', ''diabetes_med'', ''readmitted'']"

definition final_df ::
  "string list \<Rightarrow> cell list list list \<Rightarrow> string list \<Rightarrow> cell list list list \<Rightarrow> error + dataframe"
  where
  "final_df ph ps rh rs =
     (case joined_df ph ps rh rs of Inl e \<Rightarrow> Inl e | Inr j \<Rightarrow> select selected j)"

subsection \<open>Stages 9 to 11: console output and the sink\<close>

text \<open>
  The aggregations the script shows, as it writes them. Averages are double-precision
  values; the model records which aggregation is shown and over which table, and
  computes the two integer counts the script prints.
\<close>

datatype aggregation =
    GroupCount string
  | GroupCountDesc string
  | RoundAvg string nat string
  | GroupRoundAvg string string nat string

datatype event =
    Print string
  | PrintCount string nat
  | Show dataframe nat bool
  | ShowAggregation aggregation dataframe nat bool

fun referenced :: "aggregation \<Rightarrow> string list" where
  "referenced (GroupCount c) = [c]"
| "referenced (GroupCountDesc c) = [c]"
| "referenced (RoundAvg c d a) = [c]"
| "referenced (GroupRoundAvg k c d a) = [k, c]"

fun resolve_names :: "string list \<Rightarrow> string list \<Rightarrow> error + nat list" where
  "resolve_names cols [] = Inr []"
| "resolve_names cols (c # cs) =
     (case resolve cols c c of
        Inl e \<Rightarrow> Inl e
      | Inr i \<Rightarrow> (case resolve_names cols cs of Inl e \<Rightarrow> Inl e | Inr is \<Rightarrow> Inr (i # is)))"

text \<open>One statement of stages 9 and 10: what it prints, or the exception it raises.\<close>

definition print_line :: "string \<Rightarrow> dataframe \<Rightarrow> error + event list" where
  "print_line s df = Inr [Print s]"

definition show_df :: "nat \<Rightarrow> bool \<Rightarrow> dataframe \<Rightarrow> error + event list" where
  "show_df n tr df = Inr [Show df n tr]"

definition print_count :: "string \<Rightarrow> dataframe \<Rightarrow> error + event list" where
  "print_count s df = Inr [PrintCount s (length (rows_of df))]"

definition print_distinct_count :: "string \<Rightarrow> string \<Rightarrow> dataframe \<Rightarrow> error + event list" where
  "print_distinct_count s c df =
     (case resolve (columns df) c c of
        Inl e \<Rightarrow> Inl e
      | Inr i \<Rightarrow> Inr [PrintCount s (length (remdups (map (\<lambda>row. cell_at row i) (rows_of df))))])"

definition show_aggregation ::
  "aggregation \<Rightarrow> nat \<Rightarrow> bool \<Rightarrow> dataframe \<Rightarrow> error + event list" where
  "show_aggregation g n tr df =
     (case resolve_names (columns df) (referenced g) of
        Inl e \<Rightarrow> Inl e
      | Inr _ \<Rightarrow> Inr [ShowAggregation g df n tr])"

text \<open>Lines 92 to 127 of the script, statement by statement (\<^verbatim>\<open>show()\<close> is \<^verbatim>\<open>show(20, True)\<close>).\<close>

definition statements :: "(dataframe \<Rightarrow> error + event list) list" where
  "statements =
     [print_line ''\<newline>=== Sample Joined Dataset ==='',
      show_df 5 False,
      print_count ''\<newline>Total rows in joined dataset:'',
      print_distinct_count ''Total unique patients:'' ''patient_id'',
      print_line ''\<newline>=== Gender Distribution ==='',
      show_aggregation (GroupCount ''gender'') 20 True,
      print_line ''\<newline>=== Average Age ==='',
      show_aggregation (RoundAvg ''age'' 2 ''avg_age'') 20 True,
      print_line ''\<newline>=== Top 5 Hospitals by Patient Count ==='',
      show_aggregation (GroupCountDesc ''hospital'') 5 False,
      print_line ''\<newline>=== Top 5 Doctors by Patient Count ==='',
      show_aggregation (GroupCountDesc ''doctor'') 5 False,
      print_line ''\<newline>=== Readmission Counts ==='',
      show_aggregation (GroupCount ''readmitted'') 20 True,
      print_line ''\<newline>=== Average Time in Hospital by Readmission ==='',
      show_aggregation (GroupRoundAvg ''readmitted'' ''time_in_hospital'' 2 ''avg_days'') 20 True,
      print_line ''\<newline>=== Average Billing by Admission Type ==='',
      show_aggregation (GroupRoundAvg ''admission_type'' ''billing_amount'' 2 ''avg_billing'') 20 True]"

text \<open>Statements run in order; an exception ends the run after what was printed before it.\<close>

fun run :: "(dataframe \<Rightarrow> error + event list) list \<Rightarrow> dataframe \<Rightarrow> event list \<times> error option"
  where
  "run [] df = ([], None)"
| "run (st # sts) df =
     (case st df of
        Inl e \<Rightarrow> ([], Some e)
      | Inr out \<Rightarrow> (case run sts df of (outs, r) \<Rightarrow> (out @ outs, r)))"

record outcome =
  console :: "event list"
  raised :: "error option"
  parquet :: "dataframe option"

definition main ::
  "string list \<Rightarrow> cell list list list \<Rightarrow> string list \<Rightarrow> cell list list list \<Rightarrow> outcome" where
  "main ph ps rh rs =
     (case final_df ph ps rh rs of
        Inl e \<Rightarrow> \<lparr> console = [], raised = Some e, parquet = None \<rparr>
      | Inr df \<Rightarrow>
          (case run statements df of
             (outs, Some e) \<Rightarrow> \<lparr> console = outs, raised = Some e, parquet = None \<rparr>
           | (outs, None) \<Rightarrow> \<lparr> console = outs, raised = None, parquet = Some df \<rparr>))"

subsection \<open>The specification's notions\<close>

text \<open>
  A bucket label of the form \<^verbatim>\<open>[<digits>-<digits>)\<close>, an occurrence of one at offset \<open>i\<close> of
  a string with lower-bound digits \<open>d1\<close>, and the first occurrence.
\<close>

definition is_bucket :: "string \<Rightarrow> string \<Rightarrow> string \<Rightarrow> bool" where
  "is_bucket d1 d2 b \<longleftrightarrow>
     d1 \<noteq> [] \<and> d2 \<noteq> [] \<and> list_all is_digit d1 \<and> list_all is_digit d2 \<and>
     b = ''['' @ d1 @ ''-'' @ d2 @ '')''"

definition occurs_at :: "nat \<Rightarrow> string \<Rightarrow> string \<Rightarrow> bool" where
  "occurs_at i d1 s \<longleftrightarrow>
     i \<le> length s \<and> (\<exists>d2 b post. is_bucket d1 d2 b \<and> drop i s = b @ post)"

definition first_occurrence :: "nat \<Rightarrow> string \<Rightarrow> string \<Rightarrow> bool" where
  "first_occurrence i d1 s \<longleftrightarrow>
     occurs_at i d1 s \<and> (\<forall>j < i. \<forall>d. \<not> occurs_at j d s)"

text \<open>A direct recogniser of a bucket at the start of a string, used to reason about
  \<open>match_here age_pattern\<close>.\<close>

definition bucket_here :: "string \<Rightarrow> string option" where
  "bucket_here s =
     (case s of
        [] \<Rightarrow> None
      | c # r \<Rightarrow>
          if c \<noteq> CHR ''['' \<or> takeWhile is_digit r = [] then None
          else (case dropWhile is_digit r of
                  [] \<Rightarrow> None
                | c2 # r3 \<Rightarrow>
                    if c2 \<noteq> CHR ''-'' \<or> takeWhile is_digit r3 = [] then None
                    else (case dropWhile is_digit r3 of
                            [] \<Rightarrow> None
                          | c3 # _ \<Rightarrow>
                              if c3 = CHR '')'' then Some (takeWhile is_digit r) else None)))"

text \<open>
  The interval \<open>[age_lower, age_lower + 9]\<close> of a readmission record contains a patient's
  age: both are present and \<open>age_lower \<le> age \<le> age_lower + 9\<close> over the integers.
\<close>

fun in_interval :: "cell \<Rightarrow> cell \<Rightarrow> bool" where
  "in_interval (IntC l) (IntC a) = (l \<le> a \<and> a \<le> l + 9)"
| "in_interval _ _ = False"

text \<open>
  The data model's typing of a patient's age: every cell of the column is an integer or
  null (vacuously so when the table has no single column of that name).
\<close>

fun integer_or_null :: "cell \<Rightarrow> bool" where
  "integer_or_null NullC = True"
| "integer_or_null (IntC a) = True"
| "integer_or_null _ = False"

definition integer_column :: "string \<Rightarrow> dataframe \<Rightarrow> bool" where
  "integer_column name df =
     (case resolve (columns df) name name of
        Inl e \<Rightarrow> True
      | Inr i \<Rightarrow> list_all (\<lambda>row. integer_or_null (cell_at row i)) (rows_of df))"

text \<open>The same, for lower bounds whose upper bound \<open>age_lower + 9\<close> is a 32-bit integer.\<close>

fun in_interval32 :: "cell \<Rightarrow> cell \<Rightarrow> bool" where
  "in_interval32 (IntC l) (IntC a) = (l \<le> 2147483638 \<and> l \<le> a \<and> a \<le> l + 9)"
| "in_interval32 _ _ = False"


text \<open>The seven report categories of the specification, and the one a console event realises.\<close>

datatype report_category =
    GenderDistribution
  | AverageAge
  | TopHospitals nat
  | TopDoctors nat
  | ReadmissionCounts
  | AvgTimeInHospitalByReadmission
  | AvgBillingByAdmissionType

fun category_of :: "event \<Rightarrow> report_category option" where
  "category_of (ShowAggregation (GroupCount c) df n tr) =
     (if c = ''gender'' then Some GenderDistribution
      else if c = ''readmitted'' then Some ReadmissionCounts else None)"
| "category_of (ShowAggregation (RoundAvg c d a) df n tr) =
     (if c = ''age'' then Some AverageAge else None)"
| "category_of (ShowAggregation (GroupCountDesc c) df n tr) =
     (if c = ''hospital'' then Some (TopHospitals n)
      else if c = ''doctor'' then Some (TopDoctors n) else None)"
| "category_of (ShowAggregation (GroupRoundAvg k c d a) df n tr) =
     (if k = ''readmitted'' \<and> c = ''time_in_hospital'' then Some AvgTimeInHospitalByReadmission
      else if k = ''admission_type'' \<and> c = ''billing_amount'' then Some AvgBillingByAdmissionType
      else None)"
| "category_of _ = None"

text \<open>The table a console event shows or aggregates, if it shows one.\<close>

fun shown_table :: "event \<Rightarrow> dataframe option" where
  "shown_table (Show df n tr) = Some df"
| "shown_table (ShowAggregation g df n tr) = Some df"
| "shown_table _ = None"

fun is_aggregation :: "event \<Rightarrow> bool" where
  "is_aggregation (ShowAggregation g df n tr) = True"
| "is_aggregation _ = False"

subsection \<open>Sample inputs\<close>

text \<open>The headers of the two data sets the script's column list belongs to, and sample rows.\<close>

definition patient_header :: "string list" where
  "patient_header = [''Name'', ''Age'', ''Gender'', ''Blood Type'', ''Medical Condition'',
     ''Date of Admission'', ''Doctor'', ''Hospital'', ''Insurance Provider'', ''Billing Amount'',
     ''Room Number'', ''Admission Type'', ''Discharge Date'', ''Medication'', ''Test Results'']"

definition readmission_header :: "string list" where
  "readmission_header = [''age'', ''time_in_hospital'', ''n_lab_procedures'', ''n_procedures'',
     ''n_medications'', ''n_outpatient'', ''n_inpatient'', ''n_emergency'', ''medical_specialty'',
     ''diag_1'', ''diag_2'', ''diag_3'', ''glucose_test'', ''A1Ctest'', ''change'',
     ''diabetes_med'', ''readmitted'']"

definition patient_row :: "string \<Rightarrow> int \<Rightarrow> cell list" where
  "patient_row name a = [StrC name, IntC a, StrC ''Female'', StrC ''O+'', StrC ''Asthma'',
     OtherC ''2023-01-05'', StrC ''Dr. Lee'', StrC ''General'', StrC ''Aetna'', OtherC ''1234.5'',
     IntC 101, StrC ''Urgent'', OtherC ''2023-01-09'', StrC ''Aspirin'', StrC ''Normal'']"

definition readmission_row :: "string \<Rightarrow> cell list" where
  "readmission_row label = [StrC label, IntC 8, IntC 72, IntC 1, IntC 18, IntC 2, IntC 0, IntC 0,
     StrC ''Missing'', StrC ''Circulatory'', StrC ''Respiratory'', StrC ''Other'', StrC ''no'',
     StrC ''no'', StrC ''no'', StrC ''yes'', StrC ''no'']"

text \<open>
  A sample run: two patients in two partitions, two readmissions of which one has a label
  that does not parse. Only the patient of age 25 and the bucket \<^verbatim>\<open>[20-30)\<close> join.
\<close>

definition sample_patients :: "cell list list list" where
  "sample_patients = [[patient_row ''Ann'' 25], [patient_row ''Bob'' 35]]"

definition sample_readmissions :: "cell list list list" where
  "sample_readmissions = [[readmission_row ''[20-30)'', readmission_row ''invalid'']]"

definition sample_final :: dataframe where
  "sample_final =
     \<lparr> columns = map snd selected,
       partitions = [[IntC 0 # patient_row ''Ann'' 25 @ tl (readmission_row ''[20-30)'')]] \<rparr>"

section \<open>The interval parser\<close>

subsection \<open>The backtracking matcher on the age pattern\<close>

text \<open>
  A greedy run of digits followed by a literal that is no digit never gives a digit back:
  of all the ways \<open>matches\<close> lists for \<^verbatim>\<open>\d+\<close>, only the longest can go on. So the pattern
  matches at the start of a string exactly when \<open>bucket_here\<close> recognises a bucket there,
  and group 1 is the run of digits after the bracket.
\<close>
lemma concat_rev_upt_last:
  assumes "\<And>k. 1 \<le> k \<Longrightarrow> k < n \<Longrightarrow> f k = []"
  shows "concat (map f (rev [1 ..< Suc n])) = (if n = 0 then [] else f n)"
proof (cases n)
  case 0
  then show ?thesis by simp
next
  case (Suc m)
  have "concat (map f (rev [1 ..< Suc m])) = []"
    using assms Suc by (auto simp: concat_eq_Nil_conv)
  then show ?thesis using Suc by simp
qed

lemma drop_takeWhile_head:
  assumes "k < length (takeWhile P s)"
  shows "\<exists>t. drop k s = (s ! k) # t \<and> P (s ! k)"
proof -
  have kl: "k < length s" using assms length_takeWhile_le[of P s] by (meson less_le_trans)
  have "P (takeWhile P s ! k)" using assms nth_mem set_takeWhileD by metis

  then have "P (s ! k)" using assms by (simp add: takeWhile_nth)
  moreover have "drop k s = (s ! k) # drop (Suc k) s" using kl by (simp add: Cons_nth_drop_Suc)
  ultimately show ?thesis by blast
qed

lemma matches_One_blocked:
  assumes "k < length (takeWhile (atom_ok a) s)" and "\<not> atom_ok a c"
  shows "matches (One (Chr c) # ps) (drop k s) = []"
proof -
  obtain t where "drop k s = (s ! k) # t" and "atom_ok a (s ! k)"
    using drop_takeWhile_head[OF assms(1)] by blast
  then show ?thesis using assms(2) by auto
qed

lemma matches_Plus_then_Chr:
  assumes "\<not> atom_ok a c"
  shows "matches (Plus a # One (Chr c) # ps) s =
           (if takeWhile (atom_ok a) s = [] then []
            else matches (One (Chr c) # ps) (dropWhile (atom_ok a) s))"
proof -
  let ?n = "length (takeWhile (atom_ok a) s)"
  have "matches (Plus a # One (Chr c) # ps) s =
          concat (map (\<lambda>k. matches (One (Chr c) # ps) (drop k s)) (rev [1 ..< Suc ?n]))"
    by simp
  also have "\<dots> = (if ?n = 0 then [] else matches (One (Chr c) # ps) (drop ?n s))"
    by (rule concat_rev_upt_last) (rule matches_One_blocked[OF _ assms])
  finally show ?thesis by (simp add: dropWhile_eq_drop)
qed

lemma not_digit_punct [simp]:
  "\<not> is_digit CHR ''-''" "\<not> is_digit CHR '')''" "\<not> is_digit CHR ''[''"
  by (simp_all add: is_digit_def)

lemma matches_close:
  "matches [One (Chr CHR '')'')] r = (case r of [] \<Rightarrow> [] | c3 # t \<Rightarrow> if c3 = CHR '')'' then [t] else [])"
  by (simp split: list.splits)

lemma matches_after:
  "matches (after age_pattern) s =
     (case s of
        [] \<Rightarrow> []
      | c2 # r3 \<Rightarrow>
          if c2 \<noteq> CHR ''-'' \<or> takeWhile is_digit r3 = [] then []
          else (case dropWhile is_digit r3 of
                  [] \<Rightarrow> []
                | c3 # t \<Rightarrow> if c3 = CHR '')'' then [t] else []))"
proof -
  have "\<not> atom_ok Digit CHR '')''" by simp
  from matches_Plus_then_Chr[OF this, of "[]"]
  have plus: "\<And>r. matches [Plus Digit, One (Chr CHR '')'')] r =
      (if takeWhile is_digit r = [] then []
       else matches [One (Chr CHR '')'')] (dropWhile is_digit r))"
    by (simp add: atom_ok.simps[abs_def] cong: if_cong)
  show ?thesis
  proof (cases s)
    case Nil
    then show ?thesis by (simp add: age_pattern_def)
  next
    case (Cons c2 r3)
    have "matches (after age_pattern) s =
            (if c2 = CHR ''-'' then matches [Plus Digit, One (Chr CHR '')'')] r3 else [])"
      using Cons by (simp add: age_pattern_def del: matches.simps(3))
    then show ?thesis
      unfolding plus matches_close using Cons by simp
  qed
qed

lemma age_pattern_sel:
  "before age_pattern = [One (Chr CHR ''['')]"
  "group1 age_pattern = [Plus Digit]"
  by (simp_all add: age_pattern_def)

lemma atom_ok_Digit: "atom_ok Digit = is_digit"
  by (rule ext) simp

lemma matches_group:
  "matches (group1 age_pattern) r =
     map (\<lambda>k. drop k r) (rev [1 ..< Suc (length (takeWhile is_digit r))])"
proof -
  have "concat (map (\<lambda>k. [drop k r]) ks) = map (\<lambda>k. drop k r) ks" for ks :: "nat list"
    by (induction ks) simp_all
  then show ?thesis
    by (simp add: age_pattern_sel atom_ok_Digit)
qed

lemma matches_before:
  "matches (before age_pattern) s =
     (case s of [] \<Rightarrow> [] | c # r \<Rightarrow> if c = CHR ''['' then [r] else [])"
  by (simp add: age_pattern_sel split: list.splits)

lemma match_here_age_pattern:
  "match_here age_pattern s = (case bucket_here s of None \<Rightarrow> [] | Some d \<Rightarrow> [d])"
proof (cases s)
  case Nil
  then show ?thesis by (simp add: match_here_def bucket_here_def matches_before)
next
  case (Cons c r)
  let ?n = "length (takeWhile is_digit r)"
  let ?f = "\<lambda>k. map (\<lambda>r3. take (length r - length (drop k r)) r) (matches (after age_pattern) (drop k r))"
  have blocked: "?f k = []" if k1: "1 \<le> k" and kn: "k < ?n" for k
  proof -
    obtain t where "drop k r = (r ! k) # t" and "is_digit (r ! k)"
      using drop_takeWhile_head[OF kn] by blast
    then show ?thesis by (auto simp: matches_after)
  qed
  have grp: "concat (map ?f (rev [1 ..< Suc ?n])) = (if ?n = 0 then [] else ?f ?n)"
    by (rule concat_rev_upt_last) (rule blocked)
  have tk: "take (length r - length (dropWhile is_digit r)) r = takeWhile is_digit r"
  proof -
    have "length r - length (dropWhile is_digit r) = ?n"
      by (metis add_diff_cancel_right' length_append takeWhile_dropWhile_id)
    then show ?thesis by (metis takeWhile_eq_take)
  qed
  show ?thesis
  proof (cases "c = CHR ''[''")
    case False
    then show ?thesis using Cons
      by (simp add: match_here_def bucket_here_def matches_before)
  next
    case True
    have "match_here age_pattern s =
            concat (map (\<lambda>r2. map (\<lambda>r3. take (length r - length r2) r) (matches (after age_pattern) r2))
                        (matches (group1 age_pattern) r))"
      using Cons True by (simp add: match_here_def matches_before)
    also have "\<dots> = concat (map ?f (rev [1 ..< Suc ?n]))"
      unfolding matches_group map_map comp_def ..
    also have "\<dots> = (if ?n = 0 then [] else ?f ?n)" by (rule grp)
    also have "\<dots> = (case bucket_here s of None \<Rightarrow> [] | Some d \<Rightarrow> [d])"
    proof (cases "takeWhile is_digit r = []")
      case e: True
      then show ?thesis using Cons True by (simp add: bucket_here_def)
    next
      case ne: False
      have d: "drop ?n r = dropWhile is_digit r" by (simp add: dropWhile_eq_drop)
      show ?thesis
        using Cons True ne
        unfolding d tk matches_after
        by (simp add: bucket_here_def split: list.split del: dropWhile_eq_Nil_conv)
    qed
    finally show ?thesis .
  qed
qed

subsection \<open>The first match is the first occurrence\<close>

lemma takeWhile_digits_then:
  assumes "list_all is_digit d" and "\<not> is_digit c"
  shows "takeWhile is_digit (d @ c # t) = d" and "dropWhile is_digit (d @ c # t) = c # t"
  using assms by (simp_all add: list_all_iff takeWhile_append2 dropWhile_append2)

lemma bucket_here_Some_iff:
  "bucket_here s = Some d1 \<longleftrightarrow> (\<exists>d2 b post. is_bucket d1 d2 b \<and> s = b @ post)"
proof
  assume h: "bucket_here s = Some d1"
  then obtain r where s: "s = CHR ''['' # r" and d1: "takeWhile is_digit r = d1" "d1 \<noteq> []"
    by (auto simp: bucket_here_def split: list.splits if_splits simp del: dropWhile_eq_Nil_conv)
  from h s obtain r3 where r3: "dropWhile is_digit r = CHR ''-'' # r3" "takeWhile is_digit r3 \<noteq> []"
    by (auto simp: bucket_here_def split: list.splits if_splits simp del: dropWhile_eq_Nil_conv)
  from h s r3 obtain post where post: "dropWhile is_digit r3 = CHR '')'' # post"
    by (auto simp: bucket_here_def split: list.splits if_splits simp del: dropWhile_eq_Nil_conv)
  let ?d2 = "takeWhile is_digit r3"
  have "r = d1 @ CHR ''-'' # r3" using d1 r3 takeWhile_dropWhile_id[of is_digit r] by simp
  moreover have "r3 = ?d2 @ CHR '')'' # post" using post takeWhile_dropWhile_id[of is_digit r3] by simp
  ultimately have "s = (''['' @ d1 @ ''-'' @ ?d2 @ '')'') @ post" using s by simp
  moreover have "list_all is_digit d1" "list_all is_digit ?d2"
    using d1 by (auto simp: list_all_iff dest: set_takeWhileD)
  ultimately have "is_bucket d1 ?d2 (''['' @ d1 @ ''-'' @ ?d2 @ '')'') \<and> s = (''['' @ d1 @ ''-'' @ ?d2 @ '')'') @ post"
    using d1 r3 by (simp add: is_bucket_def)
  then show "\<exists>d2 b post. is_bucket d1 d2 b \<and> s = b @ post" by blast
next
  assume "\<exists>d2 b post. is_bucket d1 d2 b \<and> s = b @ post"
  then obtain d2 post where b: "d1 \<noteq> []" "d2 \<noteq> []" "list_all is_digit d1" "list_all is_digit d2"
    and s: "s = CHR ''['' # d1 @ CHR ''-'' # d2 @ CHR '')'' # post"
    by (auto simp: is_bucket_def)
  show "bucket_here s = Some d1"
    using b unfolding s bucket_here_def
    by (simp add: takeWhile_digits_then del: dropWhile_eq_Nil_conv)
qed

lemma bucket_here_None_iff:
  "bucket_here s = None \<longleftrightarrow> (\<forall>d1 d2 b post. \<not> (is_bucket d1 d2 b \<and> s = b @ post))"
  using bucket_here_Some_iff[of s] by (cases "bucket_here s") (auto, blast)

lemma find_first_code:
  "find_first age_pattern s =
     (case bucket_here s of
        Some d \<Rightarrow> Some d
      | None \<Rightarrow> (case s of [] \<Rightarrow> None | _ # t \<Rightarrow> find_first age_pattern t))"
  by (subst find_first.simps) (simp add: match_here_age_pattern split: option.splits)

lemma occurs_at_0: "occurs_at 0 d s \<longleftrightarrow> bucket_here s = Some d"
  by (simp add: occurs_at_def bucket_here_Some_iff)

lemma occurs_at_Suc: "occurs_at (Suc i) d (c # t) \<longleftrightarrow> occurs_at i d t"
  by (simp add: occurs_at_def)

lemma occurs_at_Nil: "occurs_at i d [] \<longleftrightarrow> False"
  by (auto simp: occurs_at_def is_bucket_def)

lemma find_first_Some:
  "find_first age_pattern s = Some d \<longleftrightarrow> (\<exists>i. first_occurrence i d s)"
proof (induction s)
  case Nil
  show ?case
    by (subst find_first_code) (simp add: first_occurrence_def occurs_at_Nil bucket_here_def)
next
  case (Cons c t)
  show ?case
  proof (cases "bucket_here (c # t)")
    case (Some d')
    have ff: "find_first age_pattern (c # t) = Some d'"
      by (subst find_first_code) (simp add: Some)
    have fo: "first_occurrence 0 d' (c # t)"
      using Some by (simp add: first_occurrence_def occurs_at_0)
    have "d = d'" if "first_occurrence i d (c # t)" for i
    proof (cases i)
      case 0
      then show ?thesis using that Some by (simp add: first_occurrence_def occurs_at_0)
    next
      case (Suc k)
      then have "\<not> occurs_at 0 d' (c # t)" using that by (simp add: first_occurrence_def)
      then show ?thesis using Some by (simp add: occurs_at_0)
    qed
    then have "(\<exists>i. first_occurrence i d (c # t)) \<longleftrightarrow> d = d'"
      using fo by blast
    then show ?thesis unfolding ff by auto
  next
    case None
    have no0: "\<not> occurs_at 0 d' (c # t)" for d' using None by (simp add: occurs_at_0)
    have "(\<exists>i. first_occurrence i d (c # t)) \<longleftrightarrow> (\<exists>i. first_occurrence i d t)"
    proof
      assume "\<exists>i. first_occurrence i d (c # t)"
      then obtain i where i: "first_occurrence i d (c # t)" by blast
      then obtain k where k: "i = Suc k" using no0 by (cases i) (auto simp: first_occurrence_def)
      have "first_occurrence k d t"
        unfolding first_occurrence_def
      proof (intro conjI allI impI)
        show "occurs_at k d t" using i k by (simp add: first_occurrence_def occurs_at_Suc)
      next
        fix j d' assume "j < k"
        then have "\<not> occurs_at (Suc j) d' (c # t)" using i k by (simp add: first_occurrence_def)
        then show "\<not> occurs_at j d' t" by (simp add: occurs_at_Suc)
      qed
      then show "\<exists>i. first_occurrence i d t" by blast
    next
      assume "\<exists>i. first_occurrence i d t"
      then obtain k where k: "first_occurrence k d t" by blast
      have "first_occurrence (Suc k) d (c # t)"
        unfolding first_occurrence_def
      proof (intro conjI allI impI)
        show "occurs_at (Suc k) d (c # t)" using k by (simp add: first_occurrence_def occurs_at_Suc)
      next
        fix j d' assume jk: "j < Suc k"
        show "\<not> occurs_at j d' (c # t)"
        proof (cases j)
          case 0
          then show ?thesis using no0 by simp
        next
          case (Suc m)
          then show ?thesis using jk k by (simp add: first_occurrence_def occurs_at_Suc)
        qed
      qed
      then show "\<exists>i. first_occurrence i d (c # t)" by blast
    qed
    moreover have "find_first age_pattern (c # t) = find_first age_pattern t"
      by (subst find_first_code) (simp add: None)
    ultimately show ?thesis using Cons.IH by simp
  qed
qed

lemma first_occurrence_exists:
  assumes "occurs_at i d s"
  shows "\<exists>j d'. j \<le> i \<and> first_occurrence j d' s"
  using assms
proof (induction i arbitrary: d rule: less_induct)
  case (less i)
  show ?case
  proof (cases "\<exists>j<i. \<exists>d'. occurs_at j d' s")
    case True
    then obtain j d' where j: "j < i" "occurs_at j d' s" by blast
    from less.IH[OF j] obtain k d'' where "k \<le> j" "first_occurrence k d'' s" by blast
    then have "k \<le> i \<and> first_occurrence k d'' s" using j(1) by simp
    then show ?thesis by blast
  next
    case False
    then have "first_occurrence i d s" using less.prems by (simp add: first_occurrence_def)
    then show ?thesis by blast
  qed
qed

lemma find_first_None:
  "find_first age_pattern s = None \<longleftrightarrow> (\<forall>i d. \<not> occurs_at i d s)"
proof
  assume n: "find_first age_pattern s = None"
  show "\<forall>i d. \<not> occurs_at i d s"
  proof (intro allI notI)
    fix i d assume "occurs_at i d s"
    then obtain j d' where "first_occurrence j d' s" using first_occurrence_exists by blast
    then have "find_first age_pattern s = Some d'" using find_first_Some by blast
    then show False using n by simp
  qed
next
  assume a: "\<forall>i d. \<not> occurs_at i d s"
  show "find_first age_pattern s = None"
  proof (cases "find_first age_pattern s")
    case None
    then show ?thesis .
  next
    case (Some d)
    then obtain i where "first_occurrence i d s" using find_first_Some by blast
    then show ?thesis using a by (simp add: first_occurrence_def)
  qed
qed

lemma interval_parser_first:
  assumes "first_occurrence i d s"
  shows "interval_parser s =
           (if decimal_value d \<le> 2147483647 then Some (decimal_value d) else None)"
proof -
  have f: "find_first age_pattern s = Some d" using assms find_first_Some by blast
  have "occurs_at i d s" using assms by (simp add: first_occurrence_def)
  then have "d \<noteq> []" "list_all is_digit d" by (auto simp: occurs_at_def is_bucket_def)
  then show ?thesis
    by (simp add: interval_parser_def regexp_extract_def f cast_integer_def)
qed

lemma interval_parser_no_match:
  assumes "\<forall>i d. \<not> occurs_at i d s"
  shows "interval_parser s = None"
proof -
  have "find_first age_pattern s = None" using assms find_first_None by blast
  then show ?thesis by (simp add: interval_parser_def regexp_extract_def cast_integer_def)
qed

lemma occurs_at_iff: "occurs_at i d s \<longleftrightarrow> i \<le> length s \<and> bucket_here (drop i s) = Some d"
  by (simp add: occurs_at_def bucket_here_Some_iff)

lemma decimal_value_nonneg:
  assumes "list_all is_digit d"
  shows "0 \<le> decimal_value d"
proof -
  have "0 \<le> foldl (\<lambda>acc c. 10 * acc + digit_value c) a d" if "0 \<le> a" "list_all is_digit d" for a
    using that
  proof (induction d arbitrary: a)
    case Nil
    then show ?case by simp
  next
    case (Cons c d)
    have "0 \<le> digit_value c" using Cons.prems(2) by (auto simp: is_digit_def digit_value_def)
    then have "0 \<le> 10 * a + digit_value c" using Cons.prems(1) by simp
    then show ?case using Cons.IH Cons.prems(2) by simp
  qed
  then show ?thesis using assms by (simp add: decimal_value_def)
qed

lemma interval_parser_range:
  assumes "interval_parser s = Some n"
  shows "0 \<le> n \<and> n \<le> 2147483647"
  using assms decimal_value_nonneg[of "regexp_extract s age_pattern"]
  by (auto simp: interval_parser_def cast_integer_def split: if_splits)

text \<open>The text handed to the cast is empty or a run of digits, the two cases \<open>cast_integer\<close> covers.\<close>

lemma regexp_extract_digits:
  "regexp_extract s age_pattern = [] \<or>
   list_all is_digit (regexp_extract s age_pattern)"
proof (cases "find_first age_pattern s")
  case None
  then show ?thesis by (simp add: regexp_extract_def)
next
  case (Some d)
  then obtain i where "first_occurrence i d s" using find_first_Some by blast
  then have "list_all is_digit d"
    by (auto simp: first_occurrence_def occurs_at_def is_bucket_def)
  then show ?thesis using Some by (simp add: regexp_extract_def)
qed

subsection \<open>Totality of the parser\<close>

text \<open>
  C2 (as the code has it). The parser is a total function on strings with no error
  outcome. Every label either contains a bucket \<^verbatim>\<open>[<digits>-<digits>)\<close>, and then has a
  first occurrence of one, or contains none. In the first case the parser returns the
  lower bound of the first occurrence when that number is at most 2147483647, and null
  when it is larger; in the second case it returns null, never zero.
\<close>

theorem interval_parser_total:
  "((\<exists>i d. first_occurrence i d s) \<or> (\<forall>i d. \<not> occurs_at i d s)) \<and>
   (first_occurrence i d s \<longrightarrow>
      interval_parser s =
        (if decimal_value d \<le> 2147483647 then Some (decimal_value d) else None)) \<and>
   ((\<forall>i d. \<not> occurs_at i d s) \<longrightarrow> interval_parser s = None \<and> interval_parser s \<noteq> Some 0)"
proof (intro conjI impI)
  show "(\<exists>i d. first_occurrence i d s) \<or> (\<forall>i d. \<not> occurs_at i d s)"
    using first_occurrence_exists by blast
next
  assume "first_occurrence i d s"
  then show "interval_parser s =
      (if decimal_value d \<le> 2147483647 then Some (decimal_value d) else None)"
    by (rule interval_parser_first)
next
  assume a: "\<forall>i d. \<not> occurs_at i d s"
  then show "interval_parser s = None" by (rule interval_parser_no_match)
  then show "interval_parser s \<noteq> Some 0" by simp
qed

theorem interval_parser_total_witness:
  "first_occurrence 0 ''20'' ''[20-30)'' \<and> interval_parser ''[20-30)'' = Some 20 \<and>
   (\<forall>i d. \<not> occurs_at i d ''invalid'') \<and> interval_parser ''invalid'' = None"
proof -
  have fo: "first_occurrence 0 ''20'' ''[20-30)''"
    by (simp add: first_occurrence_def occurs_at_0 bucket_here_def is_digit_def)
  have "find_first age_pattern ''invalid'' = None" by code_simp
  then have nm: "\<forall>i d. \<not> occurs_at i d ''invalid''" by (simp add: find_first_None)
  have dv: "decimal_value ''20'' = 20" by (simp add: decimal_value_def digit_value_def)
  from interval_parser_total[of "''[20-30)''" 0 "''20''"] fo dv
  have "interval_parser ''[20-30)'' = Some 20" by simp
  moreover from interval_parser_total[of "''invalid''"] nm
  have "interval_parser ''invalid'' = None" by blast
  ultimately show ?thesis using fo nm by blast
qed

text \<open>
  C2 as stated fails: this label matches the pattern, with lower bound 2147483648, and the
  parser returns null, which the claim reserves for labels that do not match.
\<close>

theorem interval_parser_overflow_counterexample:
  "occurs_at 0 ''2147483648'' ''[2147483648-2147483658)'' \<and>
   interval_parser ''[2147483648-2147483658)'' = None"
proof
  show "occurs_at 0 ''2147483648'' ''[2147483648-2147483658)''"
    by (simp add: occurs_at_0 bucket_here_def is_digit_def)
  show "interval_parser ''[2147483648-2147483658)'' = None"
    by code_simp
qed

subsection \<open>The match is not anchored\<close>

lemma first_occurrence_digits:
  assumes "first_occurrence i d s" and "first_occurrence j e s"
  shows "d = e"
proof -
  have "find_first age_pattern s = Some d" "find_first age_pattern s = Some e"
    using assms find_first_Some by blast+
  then show ?thesis by simp
qed

text \<open>
  C9 (as the code has it). A string that contains a bucket \<^verbatim>\<open>[<digits>-<digits>)\<close> anywhere,
  with any text before and after it, has a first occurrence of a bucket at or before that
  place, and the parser returns the lower bound of the first occurrence when it is at most
  2147483647 (null when it is larger). If no bucket occurs earlier, that is the lower
  bound \<open>d1\<close> of the bucket given.
\<close>

theorem interval_parser_unanchored:
  assumes "is_bucket d1 d2 b"
  shows "\<exists>j d. j \<le> length pre \<and> first_occurrence j d (pre @ b @ post) \<and>
           interval_parser (pre @ b @ post) =
             (if decimal_value d \<le> 2147483647 then Some (decimal_value d) else None) \<and>
           (j = length pre \<longrightarrow> d = d1)"
proof -
  let ?s = "pre @ b @ post"
  have occ: "occurs_at (length pre) d1 ?s"
    using assms by (auto simp: occurs_at_def)
  then obtain j d where j: "j \<le> length pre" and fo: "first_occurrence j d ?s"
    using first_occurrence_exists by blast
  have "d = d1" if "j = length pre"
  proof -
    have "occurs_at (length pre) d ?s" using fo that by (simp add: first_occurrence_def)
    then show ?thesis using occ by (simp add: occurs_at_iff)
  qed
  then show ?thesis using j fo interval_parser_first[OF fo] by blast
qed

theorem interval_parser_unanchored_witness:
  "is_bucket ''60'' ''70'' ''[60-70)'' \<and>
   interval_parser (''age: '' @ ''[60-70)'' @ '' years'') = Some 60"
proof -
  have b: "is_bucket ''60'' ''70'' ''[60-70)''"
    by (simp add: is_bucket_def is_digit_def)
  from interval_parser_unanchored[OF b, of "''age: ''" "'' years''"]
  obtain j d where fo: "first_occurrence j d (''age: '' @ ''[60-70)'' @ '' years'')"
    and p: "interval_parser (''age: '' @ ''[60-70)'' @ '' years'') =
              (if decimal_value d \<le> 2147483647 then Some (decimal_value d) else None)"
    by blast
  have "find_first age_pattern (''age: '' @ ''[60-70)'' @ '' years'') = Some ''60''"
    by code_simp
  moreover have "find_first age_pattern (''age: '' @ ''[60-70)'' @ '' years'') = Some d"
    using fo find_first_Some by blast
  ultimately have "d = ''60''" by simp
  moreover have "decimal_value ''60'' = 60" by (simp add: decimal_value_def digit_value_def)
  ultimately show ?thesis using b p by simp
qed

text \<open>
  C9 as stated fails: the string contains a bucket with lower bound 4294967296, and the
  parser returns null, not that lower bound.
\<close>

theorem interval_parser_unanchored_counterexample:
  "is_bucket ''4294967296'' ''4294967306'' ''[4294967296-4294967306)'' \<and>
   interval_parser (''age '' @ ''[4294967296-4294967306)'' @ '' years'') = None"
proof
  show "is_bucket ''4294967296'' ''4294967306'' ''[4294967296-4294967306)''"
    by (simp add: is_bucket_def is_digit_def)
  show "interval_parser (''age '' @ ''[4294967296-4294967306)'' @ '' years'') = None"
    by code_simp
qed

section \<open>Tables\<close>

subsection \<open>Column resolution and column update\<close>

lemma filter_upt_singleton:
  "filter P [0 ..< n] = [i] \<longleftrightarrow> i < n \<and> P i \<and> (\<forall>k < n. P k \<longrightarrow> k = i)"
proof
  assume h: "filter P [0 ..< n] = [i]"
  then have "set (filter P [0 ..< n]) = {i}" by simp
  then have "{k. k < n \<and> P k} = {i}" by auto
  then show "i < n \<and> P i \<and> (\<forall>k < n. P k \<longrightarrow> k = i)" by blast
next
  assume h: "i < n \<and> P i \<and> (\<forall>k < n. P k \<longrightarrow> k = i)"
  then have s: "set (filter P [0 ..< n]) = {i}" by auto
  have d: "distinct (filter P [0 ..< n])" by simp
  have "length (filter P [0 ..< n]) = card (set (filter P [0 ..< n]))"
    using d by (metis distinct_card)
  then have "length (filter P [0 ..< n]) = 1" using s by simp
  then obtain x where x: "filter P [0 ..< n] = [x]"
    by (cases "filter P [0 ..< n]") (auto simp: length_Suc_conv)
  then have "x \<in> {i}" using s by (metis list.set_intros(1))
  then show "filter P [0 ..< n] = [i]" using x by simp
qed

lemma resolve_Inr_iff:
  "resolve cols c sh = Inr i \<longleftrightarrow>
     i < length cols \<and> cols ! i = c \<and> (\<forall>k < length cols. cols ! k = c \<longrightarrow> k = i)"
proof -
  have "resolve cols c sh = Inr i \<longleftrightarrow> filter (\<lambda>k. cols ! k = c) [0 ..< length cols] = [i]"
    by (auto simp: resolve_def split: list.splits)
  then show ?thesis by (simp add: filter_upt_singleton)
qed

lemma resolve_shown: "resolve cols c sh = Inr i \<Longrightarrow> resolve cols c sh' = Inr i"
  by (simp add: resolve_Inr_iff)



lemma length_fit [simp]: "length (fit n row) = n"
  by (simp add: fit_def)

lemma length_set_column:
  assumes "length row = length cols"
  shows "length (set_column cols name v row) =
           length (if name \<in> set cols then cols else cols @ [name])"
  using assms by (simp add: set_column_def)

lemma cell_at_set_column_new:
  assumes "length row = length cols"
    and "resolve (if name \<in> set cols then cols else cols @ [name]) name sh = Inr j"
  shows "cell_at (set_column cols name v row) j = v"
proof (cases "name \<in> set cols")
  case True
  then have "j < length cols" "cols ! j = name" using assms(2) by (auto simp: resolve_Inr_iff)
  then show ?thesis using True assms(1) by (simp add: set_column_def cell_at_def)
next
  case False
  have "j < length (cols @ [name])" "(cols @ [name]) ! j = name"
    using assms(2) False by (auto simp: resolve_Inr_iff)
  then have "j = length cols"
    using False by (cases "j < length cols") (auto simp: nth_append)
  then show ?thesis using False assms(1) by (simp add: set_column_def cell_at_def nth_append)
qed

lemma cell_at_set_column_old:
  assumes "length row = length cols" and "i < length cols" and "cols ! i \<noteq> name"
  shows "cell_at (set_column cols name v row) i = cell_at row i"
  using assms by (auto simp: set_column_def cell_at_def nth_append)



lemma rows_of_with_column:
  "rows_of (with_column name (\<lambda>k j. g) df) =
     map (\<lambda>row. set_column (columns df) name (g row) row) (rows_of df)"
proof -
  have inner: "map (\<lambda>(j, row). set_column (columns df) name (g row) row) (enumerate n part) =
               map (\<lambda>row. set_column (columns df) name (g row) row) part" for n part
    by (induction part arbitrary: n) simp_all
  have outer: "concat (map (\<lambda>(k, part). map (\<lambda>(j, row). set_column (columns df) name (g row) row)
                                  (enumerate 0 part)) (enumerate n parts)) =
               map (\<lambda>row. set_column (columns df) name (g row) row) (concat parts)" for n parts
    by (induction parts arbitrary: n) (simp_all add: inner)
  show ?thesis by (simp add: rows_of_def with_column_def outer)
qed

subsection \<open>The join condition\<close>

lemma interval_of_cell_cases:
  "interval_of_cell lab = NullC \<or> (\<exists>l. interval_of_cell lab = IntC l \<and> 0 \<le> l \<and> l \<le> 2147483647)"
proof (cases lab)
  case (StrC s)
  then show ?thesis
    using interval_parser_range[of s] by (cases "interval_parser s") auto
qed simp_all

lemma wrap32_plus9:
  assumes "0 \<le> l" and "l \<le> 2147483647"
  shows "wrap32 (l + 9) = (if l \<le> 2147483638 then l + 9 else l + 9 - 4294967296)"
proof (cases "l \<le> 2147483638")
  case True
  have "(l + 9 + 2147483648) mod 4294967296 = l + 9 + 2147483648"
    using assms True by (intro mod_pos_pos_trivial) simp_all
  then show ?thesis using True by (simp add: wrap32_def)
next
  case False
  have "(l + 9 + 2147483648) mod 4294967296 = (l + 9 + 2147483648 - 4294967296) mod 4294967296"
    by (rule minus_mod_self2[symmetric])
  also have "\<dots> = l + 9 + 2147483648 - 4294967296"
    using assms False by (intro mod_pos_pos_trivial) simp_all
  finally show ?thesis using False by (simp add: wrap32_def)
qed

lemma and3_True: "and3 x y = Some True \<longleftrightarrow> x = Some True \<and> y = Some True"
proof (cases x)
  case None
  then show ?thesis by (cases y) (simp, rename_tac b, case_tac b, simp_all)
next
  case (Some a)
  then show ?thesis
    by (cases a; cases y) (simp, rename_tac b, case_tac b, simp_all)+
qed

lemma join_condition_iff:
  assumes "cell_at rr j = interval_of_cell lab"
  shows "join_condition i j pr rr = Some True \<longleftrightarrow>
           in_interval32 (interval_of_cell lab) (cell_at pr i)"
proof -
  from interval_of_cell_cases[of lab] show ?thesis
  proof
    assume n: "interval_of_cell lab = NullC"
    then show ?thesis using assms
      by (cases "cell_at pr i") (simp_all add: join_condition_def between_def and3_True)
  next
    assume "\<exists>l. interval_of_cell lab = IntC l \<and> 0 \<le> l \<and> l \<le> 2147483647"
    then obtain l where l: "interval_of_cell lab = IntC l" "0 \<le> l" "l \<le> 2147483647" by blast
    show ?thesis
    proof (cases "cell_at pr i")
      case (IntC a)
      then show ?thesis
        using assms l wrap32_plus9[OF l(2,3)]
        by (auto simp: join_condition_def between_def and3_True)
    qed (simp_all add: join_condition_def between_def and3_True assms l)
  qed
qed


subsection \<open>The shape of the two tables\<close>

lemma columns_with_column:
  "columns (with_column name f df) =
     (if name \<in> set (columns df) then columns df else columns df @ [name])"
  by (simp add: with_column_def)

lemma rows_of_with_column_set:
  assumes "x \<in> set (rows_of (with_column name f df))"
  shows "\<exists>v row. row \<in> set (rows_of df) \<and> x = set_column (columns df) name v row"
proof -
  from assms have "\<exists>kp \<in> set (enumerate 0 (partitions df)).
      x \<in> set (map (\<lambda>jr. set_column (columns df) name (f (fst kp) (fst jr) (snd jr)) (snd jr))
                  (enumerate 0 (snd kp)))"
    by (simp add: rows_of_def with_column_def case_prod_beta)
  then obtain kp where kp: "kp \<in> set (enumerate 0 (partitions df))"
    and x: "x \<in> set (map (\<lambda>jr. set_column (columns df) name (f (fst kp) (fst jr) (snd jr)) (snd jr))
                  (enumerate 0 (snd kp)))"
    by blast
  from x obtain jr where jr: "jr \<in> set (enumerate 0 (snd kp))"
    and xe: "x = set_column (columns df) name (f (fst kp) (fst jr) (snd jr)) (snd jr)"
    by auto
  have "fst kp < length (partitions df)" "partitions df ! fst kp = snd kp"
    using kp by (simp_all add: in_set_enumerate_eq)
  then have "snd kp \<in> set (partitions df)" by (metis nth_mem)
  moreover have "fst jr < length (snd kp)" "snd kp ! fst jr = snd jr"
    using jr by (simp_all add: in_set_enumerate_eq)
  then have "snd jr \<in> set (snd kp)" by (metis nth_mem)
  ultimately have "snd jr \<in> set (rows_of df)" by (auto simp: rows_of_def)
  then show ?thesis using xe by blast
qed

lemma rows_of_normalized_csv:
  "rows_of (toDF (map normalize_name (columns (read_csv h s))) (read_csv h s)) =
     map (fit (length h)) (concat s)"
  by (simp add: rows_of_def toDF_def read_csv_def map_concat)

lemma columns_normalized_csv:
  "columns (toDF (map normalize_name (columns (read_csv h s))) (read_csv h s)) = map normalize_name h"
  by (simp add: toDF_def read_csv_def)

lemma columns_patients_df:
  "columns (patients_df ph ps) =
     (if ''patient_id'' \<in> set (map normalize_name ph) then map normalize_name ph
      else map normalize_name ph @ [''patient_id''])"
  by (simp add: patients_df_def Let_def columns_with_column columns_normalized_csv)

lemma length_rows_patients_df:
  assumes "pr \<in> set (rows_of (patients_df ph ps))"
  shows "length pr = length (columns (patients_df ph ps))"
proof -
  let ?df = "toDF (map normalize_name (columns (read_csv ph ps))) (read_csv ph ps)"
  from assms obtain v row where row: "row \<in> set (rows_of ?df)"
    and pr: "pr = set_column (columns ?df) ''patient_id'' v row"
    unfolding patients_df_def Let_def using rows_of_with_column_set by blast
  have "length row = length (columns ?df)"
    using row by (auto simp: rows_of_normalized_csv columns_normalized_csv)
  then show ?thesis
    unfolding pr columns_patients_df using length_set_column[of row "columns ?df"]
    by (simp add: columns_normalized_csv)
qed

lemma readmissions_df_Inr:
  assumes "readmissions_df rh rs = Inr r"
  obtains i where "resolve (map normalize_name rh) ''age'' ''age'' = Inr i"
    and "columns r = (if ''age_lower'' \<in> set (map normalize_name rh) then map normalize_name rh
                      else map normalize_name rh @ [''age_lower''])"
    and "rows_of r = map (\<lambda>row. set_column (map normalize_name rh) ''age_lower''
                                   (interval_of_cell (cell_at row i)) row)
                         (map (fit (length rh)) (concat rs))"
proof -
  let ?df = "toDF (map normalize_name (columns (read_csv rh rs))) (read_csv rh rs)"
  from assms obtain i where i: "resolve (columns ?df) ''age'' ''age'' = Inr i"
    and r: "r = with_column ''age_lower'' (\<lambda>k j row. interval_of_cell (cell_at row i)) ?df"
    by (auto simp: readmissions_df_def Let_def split: sum.splits)
  show ?thesis
  proof (rule that[of i])
    show "resolve (map normalize_name rh) ''age'' ''age'' = Inr i"
      using i by (simp add: columns_normalized_csv)
    show "columns r = (if ''age_lower'' \<in> set (map normalize_name rh) then map normalize_name rh
                      else map normalize_name rh @ [''age_lower''])"
      unfolding r columns_with_column columns_normalized_csv ..
    show "rows_of r = map (\<lambda>row. set_column (map normalize_name rh) ''age_lower''
                                   (interval_of_cell (cell_at row i)) row)
                         (map (fit (length rh)) (concat rs))"
      unfolding r rows_of_with_column rows_of_normalized_csv columns_normalized_csv ..
  qed
qed

text \<open>Every readmission row carries, as \<open>age_lower\<close>, the parse of its own label.\<close>

lemma readmission_row_age_lower:
  assumes r: "readmissions_df rh rs = Inr r"
    and i: "resolve (map normalize_name rh) ''age'' ''age'' = Inr i"
    and j: "resolve (columns r) ''age_lower'' sh = Inr j"
    and rr: "rr \<in> set (rows_of r)"
  shows "cell_at rr j = interval_of_cell (cell_at rr i) \<and> length rr = length (columns r)"
proof -
  let ?cols = "map normalize_name rh"
  from readmissions_df_Inr[OF r] obtain i' where i': "resolve ?cols ''age'' ''age'' = Inr i'"
    and c: "columns r = (if ''age_lower'' \<in> set ?cols then ?cols else ?cols @ [''age_lower''])"
    and rows: "rows_of r = map (\<lambda>row. set_column ?cols ''age_lower''
                 (interval_of_cell (cell_at row i')) row) (map (fit (length rh)) (concat rs))"
    by blast
  have ii: "i' = i" using i i' by simp
  from rr rows ii have "\<exists>x \<in> set (concat rs).
      rr = set_column ?cols ''age_lower'' (interval_of_cell (cell_at (fit (length rh) x) i))
             (fit (length rh) x)"
    by (simp add: image_iff)
  then obtain x where
    "rr = set_column ?cols ''age_lower'' (interval_of_cell (cell_at (fit (length rh) x) i))
             (fit (length rh) x)" by blast
  then obtain row where row: "length row = length ?cols"
    and rre: "rr = set_column ?cols ''age_lower'' (interval_of_cell (cell_at row i)) row"
    using length_fit[of "length rh" x] by (metis length_map)
  have il: "i < length ?cols" "?cols ! i \<noteq> ''age_lower''"
    using i by (auto simp: resolve_Inr_iff)
  have old: "cell_at rr i = cell_at row i"
    unfolding rre by (rule cell_at_set_column_old[OF row il])
  have new: "cell_at rr j = interval_of_cell (cell_at row i)"
    unfolding rre by (rule cell_at_set_column_new[OF row]) (use j c in simp)
  have "length rr = length (columns r)"
    unfolding rre c by (rule length_set_column[OF row])
  then show ?thesis using old new by simp
qed

lemma inner_join_Inr:
  assumes "inner_join p r = Inr jn"
  obtains i j where "resolve (columns p) ''age'' ''p.age'' = Inr i"
    and "resolve (columns r) ''age_lower'' ''r.age_lower'' = Inr j"
    and "qcolumns jn = map (Pair ''p'') (columns p) @ map (Pair ''r'') (columns r)"
    and "jrows jn = concat (map (\<lambda>pr. map (\<lambda>rr. pr @ rr)
                       (filter (\<lambda>rr. join_condition i j pr rr = Some True) (rows_of r)))
                     (rows_of p))"
  using assms by (auto simp: inner_join_def split: sum.splits)

section \<open>The range join\<close>

lemma joined_df_Inr:
  assumes "joined_df ph ps rh rs = Inr jn"
  obtains r ia il j where "readmissions_df rh rs = Inr r"
    and "resolve (map normalize_name rh) ''age'' ''age'' = Inr il"
    and "resolve (columns (patients_df ph ps)) ''age'' ''p.age'' = Inr ia"
    and "resolve (columns r) ''age_lower'' ''r.age_lower'' = Inr j"
    and "qcolumns jn = map (Pair ''p'') (columns (patients_df ph ps)) @ map (Pair ''r'') (columns r)"
    and "jrows jn = concat (map (\<lambda>pr. map (\<lambda>rr. pr @ rr)
                       (filter (\<lambda>rr. in_interval32 (interval_of_cell (cell_at rr il)) (cell_at pr ia))
                               (rows_of r)))
                     (rows_of (patients_df ph ps)))"
proof -
  from assms obtain r where r: "readmissions_df rh rs = Inr r"
    and ij: "inner_join (patients_df ph ps) r = Inr jn"
    by (auto simp: joined_df_def split: sum.splits)
  from readmissions_df_Inr[OF r] obtain il where il: "resolve (map normalize_name rh) ''age'' ''age'' = Inr il"
    by blast
  from inner_join_Inr[OF ij] obtain ia j where ia: "resolve (columns (patients_df ph ps)) ''age'' ''p.age'' = Inr ia"
    and j: "resolve (columns r) ''age_lower'' ''r.age_lower'' = Inr j"
    and q: "qcolumns jn = map (Pair ''p'') (columns (patients_df ph ps)) @ map (Pair ''r'') (columns r)"
    and rows: "jrows jn = concat (map (\<lambda>pr. map (\<lambda>rr. pr @ rr)
                       (filter (\<lambda>rr. join_condition ia j pr rr = Some True) (rows_of r)))
                     (rows_of (patients_df ph ps)))"
    by blast
  have f: "filter (\<lambda>rr. join_condition ia j pr rr = Some True) (rows_of r) =
           filter (\<lambda>rr. in_interval32 (interval_of_cell (cell_at rr il)) (cell_at pr ia)) (rows_of r)"
    for pr
  proof (rule filter_cong[OF refl])
    fix rr assume "rr \<in> set (rows_of r)"
    then have "cell_at rr j = interval_of_cell (cell_at rr il)"
      using readmission_row_age_lower[OF r il j] by blast
    then show "(join_condition ia j pr rr = Some True) =
               in_interval32 (interval_of_cell (cell_at rr il)) (cell_at pr ia)"
      by (rule join_condition_iff)
  qed
  show ?thesis
    by (rule that[OF r il ia j q]) (simp add: rows f)
qed

lemma count_blocks:
  assumes "\<forall>p \<in> set P. length p = n"
  shows "length (filter (\<lambda>x. take n x = pr)
                  (concat (map (\<lambda>p. map (\<lambda>rr. p @ rr) (filter (c p) R)) P))) =
         count_list P pr * length (filter (c pr) R)"
  using assms
proof (induction P)
  case Nil
  then show ?case by simp
next
  case (Cons p P)
  have n: "length p = n" using Cons.prems by simp
  have "filter (\<lambda>x. take n x = pr) (map (\<lambda>rr. p @ rr) (filter (c p) R)) =
          (if p = pr then map (\<lambda>rr. p @ rr) (filter (c p) R) else [])"
    using n by (simp add: filter_map comp_def)
  then show ?case using Cons by simp
qed




lemma joined_count:
  assumes jd: "joined_df ph ps rh rs = Inr jn"
  shows "\<exists>r ia il.
      readmissions_df rh rs = Inr r \<and>
      resolve (columns (patients_df ph ps)) ''age'' ''p.age'' = Inr ia \<and>
      resolve (map normalize_name rh) ''age'' ''age'' = Inr il \<and>
      (\<forall>pr. length (filter (\<lambda>x. take (length (columns (patients_df ph ps))) x = pr) (jrows jn)) =
              count_list (rows_of (patients_df ph ps)) pr *
              length (filter (\<lambda>rr. in_interval32 (interval_of_cell (cell_at rr il)) (cell_at pr ia))
                             (rows_of r)))"
proof (rule joined_df_Inr[OF jd])
  let ?p = "patients_df ph ps"
  fix r ia il j
  assume r: "readmissions_df rh rs = Inr r"
    and il: "resolve (map normalize_name rh) ''age'' ''age'' = Inr il"
    and ia: "resolve (columns ?p) ''age'' ''p.age'' = Inr ia"
    and rows: "jrows jn = concat (map (\<lambda>pr. map (\<lambda>rr. pr @ rr)
                 (filter (\<lambda>rr. in_interval32 (interval_of_cell (cell_at rr il)) (cell_at pr ia))
                         (rows_of r))) (rows_of ?p))"
  have len: "\<forall>p \<in> set (rows_of ?p). length p = length (columns ?p)"
    using length_rows_patients_df by blast
  have "length (filter (\<lambda>x. take (length (columns ?p)) x = pr) (jrows jn)) =
          count_list (rows_of ?p) pr *
          length (filter (\<lambda>rr. in_interval32 (interval_of_cell (cell_at rr il)) (cell_at pr ia))
                         (rows_of r))" for pr
    unfolding rows
    by (rule count_blocks[OF len,
          of pr "\<lambda>p rr. in_interval32 (interval_of_cell (cell_at rr il)) (cell_at p ia)"])
  then show ?thesis using r ia il by blast
qed

text \<open>
  The count C3 states, where the code keeps to it. For a patient table with an integer
  \<^verbatim>\<open>age\<close> column, whenever the join is built, the number of joined rows whose patient part
  is a given patient row equals the number of times that row occurs in the patient table
  (once, when the identifiers are distinct) times the number of readmission rows whose
  label parses to an \<^verbatim>\<open>age_lower\<close> of at most 2147483638 with
  \<open>age_lower \<le> age \<le> age_lower + 9\<close>; this number may be zero. A patient of age 35 joined
  against one readmission labelled \<^verbatim>\<open>[20-30)\<close> gives no joined row.
\<close>

lemma joined_multiplicity_in_range:
  "(joined_df ph ps rh rs = Inr jn \<longrightarrow> integer_column ''age'' (patients_df ph ps) \<longrightarrow>
     (\<exists>r ia il.
        readmissions_df rh rs = Inr r \<and>
        resolve (columns (patients_df ph ps)) ''age'' ''p.age'' = Inr ia \<and>
        resolve (map normalize_name rh) ''age'' ''age'' = Inr il \<and>
        (\<forall>pr. length (filter (\<lambda>x. take (length (columns (patients_df ph ps))) x = pr) (jrows jn)) =
                count_list (rows_of (patients_df ph ps)) pr *
                length (filter (\<lambda>rr. in_interval32 (interval_of_cell (cell_at rr il)) (cell_at pr ia))
                               (rows_of r))))) \<and>
   joined_df [''age''] [[[IntC 35]]] [''age''] [[[StrC ''[20-30)'']]] =
     Inr \<lparr> qcolumns = [(''p'', ''age''), (''p'', ''patient_id''), (''r'', ''age''), (''r'', ''age_lower'')],
           jrows = [] \<rparr>"
proof (rule conjI)
  show "joined_df ph ps rh rs = Inr jn \<longrightarrow> integer_column ''age'' (patients_df ph ps) \<longrightarrow>
     (\<exists>r ia il.
        readmissions_df rh rs = Inr r \<and>
        resolve (columns (patients_df ph ps)) ''age'' ''p.age'' = Inr ia \<and>
        resolve (map normalize_name rh) ''age'' ''age'' = Inr il \<and>
        (\<forall>pr. length (filter (\<lambda>x. take (length (columns (patients_df ph ps))) x = pr) (jrows jn)) =
                count_list (rows_of (patients_df ph ps)) pr *
                length (filter (\<lambda>rr. in_interval32 (interval_of_cell (cell_at rr il)) (cell_at pr ia))
                               (rows_of r))))"
    using joined_count by blast
  show "joined_df [''age''] [[[IntC 35]]] [''age''] [[[StrC ''[20-30)'']]] =
     Inr \<lparr> qcolumns = [(''p'', ''age''), (''p'', ''patient_id''), (''r'', ''age''), (''r'', ''age_lower'')],
           jrows = [] \<rparr>"
    by code_simp
qed

text \<open>
  C3. A patient appears in the joined output once for every readmission record whose
  interval \<open>[age_lower, age_lower + 9]\<close> contains the patient's age; line 43 of the script
  says the same of the join. The code departs from this at the input below: the label
  \<^verbatim>\<open>[2147483640-2147483650)\<close> parses to \<open>age_lower = 2147483640\<close>, the interval
  \<open>[2147483640, 2147483649]\<close> contains the patient's age 2147483645, and the join has no
  row, because \<^verbatim>\<open>col("r.age_lower") + 9\<close> is a 32-bit addition that wraps around to a
  negative upper bound.
\<close>

theorem joined_overflow_drops_match:
  "interval_of_cell (StrC ''[2147483640-2147483650)'') = IntC 2147483640 \<and>
   in_interval (IntC 2147483640) (IntC 2147483645) \<and>
   joined_df [''age''] [[[IntC 2147483645]]] [''age''] [[[StrC ''[2147483640-2147483650)'']]] =
     Inr \<lparr> qcolumns = [(''p'', ''age''), (''p'', ''patient_id''), (''r'', ''age''), (''r'', ''age_lower'')],
           jrows = [] \<rparr>"
proof (intro conjI)
  show "interval_of_cell (StrC ''[2147483640-2147483650)'') = IntC 2147483640" by code_simp
  show "in_interval (IntC 2147483640) (IntC 2147483645)" by simp
  show "joined_df [''age''] [[[IntC 2147483645]]] [''age''] [[[StrC ''[2147483640-2147483650)'']]] =
     Inr \<lparr> qcolumns = [(''p'', ''age''), (''p'', ''patient_id''), (''r'', ''age''), (''r'', ''age_lower'')],
           jrows = [] \<rparr>"
    by code_simp
qed

lemma readmissions_df_resolved:
  assumes "resolve (map normalize_name rh) ''age'' ''age'' = Inr il"
  shows "\<exists>r. readmissions_df rh rs = Inr r \<and>
             columns r = (if ''age_lower'' \<in> set (map normalize_name rh) then map normalize_name rh
                          else map normalize_name rh @ [''age_lower'']) \<and>
             rows_of r = map (\<lambda>row. set_column (map normalize_name rh) ''age_lower''
                                      (interval_of_cell (cell_at row il)) row)
                             (map (fit (length rh)) (concat rs))"
proof -
  have "readmissions_df rh rs =
          Inr (with_column ''age_lower'' (\<lambda>k j row. interval_of_cell (cell_at row il))
                 (toDF (map normalize_name (columns (read_csv rh rs))) (read_csv rh rs)))"
    using assms by (simp add: readmissions_df_def Let_def columns_normalized_csv)
  then obtain r where r: "readmissions_df rh rs = Inr r" by blast
  show ?thesis
  proof (rule readmissions_df_Inr[OF r])
    fix i
    assume i: "resolve (map normalize_name rh) ''age'' ''age'' = Inr i"
      and c: "columns r = (if ''age_lower'' \<in> set (map normalize_name rh) then map normalize_name rh
                          else map normalize_name rh @ [''age_lower''])"
      and rows: "rows_of r = map (\<lambda>row. set_column (map normalize_name rh) ''age_lower''
                                      (interval_of_cell (cell_at row i)) row)
                             (map (fit (length rh)) (concat rs))"
    have "i = il" using i assms by simp
    then show ?thesis using r c rows by blast
  qed
qed

lemma join_condition_null:
  assumes "cell_at rr j = NullC"
  shows "join_condition i j pr rr \<noteq> Some True"
  using assms by (cases "cell_at pr i") (simp_all add: join_condition_def between_def)

lemma inner_join_filter_cong:
  assumes c: "columns r1 = columns r0"
    and f: "\<And>i j pr. resolve (columns r0) ''age_lower'' ''r.age_lower'' = Inr j \<Longrightarrow>
           filter (\<lambda>rr. join_condition i j pr rr = Some True) (rows_of r1) =
           filter (\<lambda>rr. join_condition i j pr rr = Some True) (rows_of r0)"
  shows "inner_join p r1 = inner_join p r0"
proof (cases "resolve (columns p) ''age'' ''p.age''")
  case (Inl e)
  then show ?thesis by (simp add: inner_join_def)
next
  case (Inr i)
  show ?thesis
  proof (cases "resolve (columns r0) ''age_lower'' ''r.age_lower''")
    case (Inl e)
    then show ?thesis using Inr c by (simp add: inner_join_def)
  next
    case j: (Inr j)
    show ?thesis using Inr j c f[OF j] by (simp add: inner_join_def)
  qed
qed

text \<open>
  C4. A readmission record whose label does not parse (its \<^verbatim>\<open>age_lower\<close> is null) changes
  nothing: with the record \<open>x\<close> anywhere in the readmission file, the joined table is the
  one obtained without it, whatever the patients are, and so is the whole outcome of the
  program: the console output, the written table and the exception raised, if any. No
  exception comes from the record.
\<close>

theorem unparsed_label_joins_nothing:
  assumes il: "resolve (map normalize_name rh) ''age'' ''age'' = Inr il"
    and x: "interval_of_cell (cell_at (fit (length rh) x) il) = NullC"
  shows "joined_df ph ps rh (A @ [B @ [x] @ C] @ D) = joined_df ph ps rh (A @ [B @ C] @ D) \<and>
         main ph ps rh (A @ [B @ [x] @ C] @ D) = main ph ps rh (A @ [B @ C] @ D)"
proof -
  let ?cs = "map normalize_name rh"
  let ?ncs = "if ''age_lower'' \<in> set ?cs then ?cs else ?cs @ [''age_lower'']"
  let ?h = "\<lambda>row. set_column ?cs ''age_lower'' (interval_of_cell (cell_at row il)) row"
  let ?rs1 = "A @ [B @ [x] @ C] @ D" and ?rs0 = "A @ [B @ C] @ D"
  from readmissions_df_resolved[OF il, of ?rs1] obtain r1 where r1: "readmissions_df rh ?rs1 = Inr r1"
    and c1: "columns r1 = ?ncs" and rows1: "rows_of r1 = map ?h (map (fit (length rh)) (concat ?rs1))"
    by blast
  from readmissions_df_resolved[OF il, of ?rs0] obtain r0 where r0: "readmissions_df rh ?rs0 = Inr r0"
    and c0: "columns r0 = ?ncs" and rows0: "rows_of r0 = map ?h (map (fit (length rh)) (concat ?rs0))"
    by blast
  have "inner_join (patients_df ph ps) r1 = inner_join (patients_df ph ps) r0"
  proof (rule inner_join_filter_cong)
    show "columns r1 = columns r0" using c1 c0 by simp
  next
    fix i j pr
    assume j: "resolve (columns r0) ''age_lower'' ''r.age_lower'' = Inr j"
    have "cell_at (?h (fit (length rh) x)) j = interval_of_cell (cell_at (fit (length rh) x) il)"
      by (rule cell_at_set_column_new[where sh = "''r.age_lower''"]) (use j c0 in simp_all)
    then have "cell_at (?h (fit (length rh) x)) j = NullC" using x by simp
    then have "join_condition i j pr (?h (fit (length rh) x)) \<noteq> Some True"
      by (rule join_condition_null)
    then show "filter (\<lambda>rr. join_condition i j pr rr = Some True) (rows_of r1) =
               filter (\<lambda>rr. join_condition i j pr rr = Some True) (rows_of r0)"
      unfolding rows1 rows0 by simp
  qed
  then have jd: "joined_df ph ps rh ?rs1 = joined_df ph ps rh ?rs0"
    using r1 r0 by (simp add: joined_df_def)
  then have "main ph ps rh ?rs1 = main ph ps rh ?rs0"
    by (simp add: main_def final_df_def)
  then show ?thesis using jd by simp
qed

theorem unparsed_label_joins_nothing_witness:
  "resolve (map normalize_name [''age'', ''readmitted'']) ''age'' ''age'' = Inr 0 \<and>
   interval_of_cell (cell_at (fit (length [''age'', ''readmitted'']) [StrC ''invalid'', StrC ''yes'']) 0) = NullC \<and>
   joined_df [''Age''] [[[IntC 25]]] [''age'', ''readmitted'']
       ([] @ [[[StrC ''[20-30)'', StrC ''no'']] @ [[StrC ''invalid'', StrC ''yes'']] @ []] @ []) =
   joined_df [''Age''] [[[IntC 25]]] [''age'', ''readmitted'']
       ([] @ [[[StrC ''[20-30)'', StrC ''no'']] @ []] @ []) \<and>
   main [''Age''] [[[IntC 25]]] [''age'', ''readmitted'']
       ([] @ [[[StrC ''[20-30)'', StrC ''no'']] @ [[StrC ''invalid'', StrC ''yes'']] @ []] @ []) =
   main [''Age''] [[[IntC 25]]] [''age'', ''readmitted'']
       ([] @ [[[StrC ''[20-30)'', StrC ''no'']] @ []] @ [])"
proof -
  have il: "resolve (map normalize_name [''age'', ''readmitted'']) ''age'' ''age'' = Inr 0"
    by code_simp
  have x: "interval_of_cell (cell_at (fit (length [''age'', ''readmitted''])
             [StrC ''invalid'', StrC ''yes'']) 0) = NullC"
    by code_simp
  from unparsed_label_joins_nothing[OF il x, of "[''Age'']" "[[[IntC 25]]]" "[]"
      "[[StrC ''[20-30)'', StrC ''no'']]" "[]" "[]"] il x
  show ?thesis by blast
qed

section \<open>The identifier assigner\<close>
















section \<open>The selected columns, the reports and the sink\<close>

lemma resolve_all_Inr:
  assumes "resolve_all q cs = Inr is"
  shows "list_all2 (\<lambda>i c. resolve q c (fst c @ ''.'' @ snd c) = Inr i) is cs"
  using assms
proof (induction cs arbitrary: "is")
  case Nil
  then show ?case by simp
next
  case (Cons c cs)
  from Cons.prems obtain i js where i: "resolve q c (fst c @ ''.'' @ snd c) = Inr i"
    and js: "resolve_all q cs = Inr js" and e: "is = i # js"
    by (auto split: sum.splits)
  show ?case unfolding e using i Cons.IH[OF js] by simp
qed

lemma final_df_Inr:
  assumes "final_df ph ps rh rs = Inr df"
  obtains jn "is" where "joined_df ph ps rh rs = Inr jn"
    and "resolve_all (qcolumns jn) selected = Inr is"
    and "columns df = map snd selected"
    and "rows_of df = map (\<lambda>y. map (cell_at y) is) (jrows jn)"
  using assms
  by (auto simp: final_df_def select_def rows_of_def split: sum.splits)

lemma selected_names:
  "map snd selected =
     [''patient_id'', ''name'', ''age'', ''gender'', ''blood_type'', ''medical_condition'',
      ''date_of_admission'', ''doctor'', ''hospital'', ''insurance_provider'', ''billing_amount'',
      ''room_number'', ''admission_type'', ''discharge_date'', ''medication'', ''test_results'',
      ''time_in_hospital'', ''n_lab_procedures'', ''n_procedures'', ''n_medications'',
      ''n_outpatient'', ''n_inpatient'', ''n_emergency'', ''medical_specialty'', ''diag_1'',
      ''diag_2'', ''diag_3'', ''glucose_test'', ''a1ctest'', ''change'', ''diabetes_med'',
      ''readmitted'']"
  by (simp add: selected_def)

lemma selected_facts:
  "length selected = 32"
  "distinct (map snd selected)"
  "selected ! 2 = (''p'', ''age'')"
  "map snd selected ! 2 = ''age''"
  "(''r'', ''age'') \<notin> set selected"
  "(''r'', ''age_lower'') \<notin> set selected"
  "''age_lower'' \<notin> set (map snd selected)"
  by code_simp+

lemma selected_resolved:
  "resolve (map snd selected) ''patient_id'' ''patient_id'' = Inr 0"
  "resolve_names (map snd selected) (referenced (GroupCount ''gender'')) = Inr [3]"
  "resolve_names (map snd selected) (referenced (RoundAvg ''age'' 2 ''avg_age'')) = Inr [2]"
  "resolve_names (map snd selected) (referenced (GroupCountDesc ''hospital'')) = Inr [8]"
  "resolve_names (map snd selected) (referenced (GroupCountDesc ''doctor'')) = Inr [7]"
  "resolve_names (map snd selected) (referenced (GroupCount ''readmitted'')) = Inr [31]"
  "resolve_names (map snd selected)
     (referenced (GroupRoundAvg ''readmitted'' ''time_in_hospital'' 2 ''avg_days'')) = Inr [31, 16]"
  "resolve_names (map snd selected)
     (referenced (GroupRoundAvg ''admission_type'' ''billing_amount'' 2 ''avg_billing'')) = Inr [12, 10]"
  by code_simp+

text \<open>What the program prints and writes once the 32 columns are selected.\<close>

lemma main_outcome:
  assumes "final_df ph ps rh rs = Inr df"
  shows "main ph ps rh rs =
     \<lparr> console =
         [Print ''\<newline>=== Sample Joined Dataset ==='',
          Show df 5 False,
          PrintCount ''\<newline>Total rows in joined dataset:'' (length (rows_of df)),
          PrintCount ''Total unique patients:''
            (length (remdups (map (\<lambda>row. cell_at row 0) (rows_of df)))),
          Print ''\<newline>=== Gender Distribution ==='',
          ShowAggregation (GroupCount ''gender'') df 20 True,
          Print ''\<newline>=== Average Age ==='',
          ShowAggregation (RoundAvg ''age'' 2 ''avg_age'') df 20 True,
          Print ''\<newline>=== Top 5 Hospitals by Patient Count ==='',
          ShowAggregation (GroupCountDesc ''hospital'') df 5 False,
          Print ''\<newline>=== Top 5 Doctors by Patient Count ==='',
          ShowAggregation (GroupCountDesc ''doctor'') df 5 False,
          Print ''\<newline>=== Readmission Counts ==='',
          ShowAggregation (GroupCount ''readmitted'') df 20 True,
          Print ''\<newline>=== Average Time in Hospital by Readmission ==='',
          ShowAggregation (GroupRoundAvg ''readmitted'' ''time_in_hospital'' 2 ''avg_days'') df 20 True,
          Print ''\<newline>=== Average Billing by Admission Type ==='',
          ShowAggregation (GroupRoundAvg ''admission_type'' ''billing_amount'' 2 ''avg_billing'')
            df 20 True],
       raised = None,
       parquet = Some df \<rparr>"
proof -
  have c: "columns df = map snd selected"
    using assms by (rule final_df_Inr)
  show ?thesis
    unfolding main_def assms statements_def
    by (simp add: print_line_def show_df_def print_count_def print_distinct_count_def
          show_aggregation_def c selected_resolved del: referenced.simps)
qed

lemma final_df_projection:
  assumes fd: "final_df ph ps rh rs = Inr df"
  shows "\<exists>jn is ia.
      joined_df ph ps rh rs = Inr jn \<and>
      resolve (qcolumns jn) (''p'', ''age'') ''p.age'' = Inr ia \<and>
      list_all2 (\<lambda>i c. i < length (qcolumns jn) \<and> qcolumns jn ! i = c) is selected \<and>
      columns df = map snd selected \<and>
      rows_of df = map (\<lambda>y. map (cell_at y) is) (jrows jn) \<and>
      (\<forall>y. map_of (zip (columns df) (map (cell_at y) is)) ''age'' = Some (cell_at y ia))"
proof (rule final_df_Inr[OF fd])
  fix jn "is"
  assume jd: "joined_df ph ps rh rs = Inr jn"
    and ra: "resolve_all (qcolumns jn) selected = Inr is"
    and c: "columns df = map snd selected"
    and rows: "rows_of df = map (\<lambda>y. map (cell_at y) is) (jrows jn)"
  have l2: "list_all2 (\<lambda>i c. resolve (qcolumns jn) c (fst c @ ''.'' @ snd c) = Inr i) is selected"
    using ra by (rule resolve_all_Inr)
  then have len: "length is = 32"
    using selected_facts(1) by (simp add: list_all2_lengthD)
  have sel: "list_all2 (\<lambda>i c. i < length (qcolumns jn) \<and> qcolumns jn ! i = c) is selected"
    using l2 by (rule list_all2_mono) (simp add: resolve_Inr_iff)
  have "resolve (qcolumns jn) (selected ! 2) (fst (selected ! 2) @ ''.'' @ snd (selected ! 2)) = Inr (is ! 2)"
    using l2 len selected_facts(1) by (simp add: list_all2_conv_all_nth)
  then have ia: "resolve (qcolumns jn) (''p'', ''age'') ''p.age'' = Inr (is ! 2)"
    by (simp add: selected_facts(3))
  have "map_of (zip (columns df) (map (cell_at y) is)) ''age'' = Some (cell_at y (is ! 2))" for y
  proof -
    have "map_of (zip (map snd selected) (map (cell_at y) is)) (map snd selected ! 2) =
            Some (map (cell_at y) is ! 2)"
      using selected_facts(1,2) len by (intro map_of_zip_nth) simp_all
    then show ?thesis using len by (simp add: c selected_facts(4))
  qed
  then show ?thesis using jd ia sel c rows by blast
qed

text \<open>
  C5 (as the code has it). Both sides define \<^verbatim>\<open>age\<close>. Whenever the 32 columns are selected,
  the \<^verbatim>\<open>age\<close> field of every output record is the patient side's value, and the output
  fields are exactly the 32 selected columns of the joined table, each under its
  unqualified name: 16 of the patient side and 16 of the readmission side. The readmission
  side's \<^verbatim>\<open>age\<close> label and the derived \<^verbatim>\<open>age_lower\<close> are not selected, so they are in the
  output under no name.
\<close>

theorem patient_age_wins:
  "final_df ph ps rh rs = Inr df \<longrightarrow>
     (\<exists>jn is ia.
        joined_df ph ps rh rs = Inr jn \<and>
        resolve (qcolumns jn) (''p'', ''age'') ''p.age'' = Inr ia \<and>
        list_all2 (\<lambda>i c. i < length (qcolumns jn) \<and> qcolumns jn ! i = c) is selected \<and>
        columns df = map snd selected \<and>
        rows_of df = map (\<lambda>y. map (cell_at y) is) (jrows jn) \<and>
        (\<forall>y. map_of (zip (columns df) (map (cell_at y) is)) ''age'' = Some (cell_at y ia)) \<and>
        (''r'', ''age'') \<notin> set selected \<and> (''r'', ''age_lower'') \<notin> set selected)"
proof
  assume "final_df ph ps rh rs = Inr df"
  from final_df_projection[OF this] show "\<exists>jn is ia.
        joined_df ph ps rh rs = Inr jn \<and>
        resolve (qcolumns jn) (''p'', ''age'') ''p.age'' = Inr ia \<and>
        list_all2 (\<lambda>i c. i < length (qcolumns jn) \<and> qcolumns jn ! i = c) is selected \<and>
        columns df = map snd selected \<and>
        rows_of df = map (\<lambda>y. map (cell_at y) is) (jrows jn) \<and>
        (\<forall>y. map_of (zip (columns df) (map (cell_at y) is)) ''age'' = Some (cell_at y ia)) \<and>
        (''r'', ''age'') \<notin> set selected \<and> (''r'', ''age_lower'') \<notin> set selected"
    using selected_facts(5,6) by blast
qed

lemma sample_final_df:
  "final_df patient_header sample_patients readmission_header sample_readmissions = Inr sample_final"
  by code_simp

theorem patient_age_wins_witness:
  "final_df patient_header sample_patients readmission_header sample_readmissions = Inr sample_final \<and>
   (\<exists>jn is ia.
        joined_df patient_header sample_patients readmission_header sample_readmissions = Inr jn \<and>
        resolve (qcolumns jn) (''p'', ''age'') ''p.age'' = Inr ia \<and>
        list_all2 (\<lambda>i c. i < length (qcolumns jn) \<and> qcolumns jn ! i = c) is selected \<and>
        columns sample_final = map snd selected \<and>
        rows_of sample_final = map (\<lambda>y. map (cell_at y) is) (jrows jn) \<and>
        (\<forall>y. map_of (zip (columns sample_final) (map (cell_at y) is)) ''age'' = Some (cell_at y ia)) \<and>
        (''r'', ''age'') \<notin> set selected \<and> (''r'', ''age_lower'') \<notin> set selected)"
  using patient_age_wins[of patient_header sample_patients readmission_header sample_readmissions
      sample_final] sample_final_df
  by blast

text \<open>
  C5 as stated fails on the sample run: the two sides have 16 and 18 columns, the output has
  32, and no field of the output record holds the readmission side's \<^verbatim>\<open>age\<close> label
  \<^verbatim>\<open>[20-30)\<close>, which is in the joined row.
\<close>

theorem readmission_age_dropped_counterexample:
  "final_df patient_header sample_patients readmission_header sample_readmissions = Inr sample_final \<and>
   length (columns sample_final) = 32 \<and>
   StrC ''[20-30)'' \<notin> set (concat (rows_of sample_final)) \<and>
   map_sum id (\<lambda>jn. (length (qcolumns jn), map (\<lambda>y. StrC ''[20-30)'' \<in> set y) (jrows jn)))
     (joined_df patient_header sample_patients readmission_header sample_readmissions) =
   Inr (34, [True])"
  by code_simp

text \<open>
  C10. Whenever the 32 columns are selected, the output table has exactly the columns
  \<^verbatim>\<open>patient_id\<close> to \<^verbatim>\<open>readmitted\<close> below, in this order, and every record has 32 fields, each
  read from a selected column of the joined row that is neither \<^verbatim>\<open>r.age\<close> nor
  \<^verbatim>\<open>r.age_lower\<close>. This one table is what the program shows, what every report aggregates
  and what is written to the sink, and the program raises nothing after the selection.
\<close>

theorem final_schema:
  "final_df ph ps rh rs = Inr df \<longrightarrow>
     columns df =
       [''patient_id'', ''name'', ''age'', ''gender'', ''blood_type'', ''medical_condition'',
        ''date_of_admission'', ''doctor'', ''hospital'', ''insurance_provider'', ''billing_amount'',
        ''room_number'', ''admission_type'', ''discharge_date'', ''medication'', ''test_results'',
        ''time_in_hospital'', ''n_lab_procedures'', ''n_procedures'', ''n_medications'',
        ''n_outpatient'', ''n_inpatient'', ''n_emergency'', ''medical_specialty'', ''diag_1'',
        ''diag_2'', ''diag_3'', ''glucose_test'', ''a1ctest'', ''change'', ''diabetes_med'',
        ''readmitted''] \<and>
     length (columns df) = 32 \<and>
     ''age_lower'' \<notin> set (columns df) \<and>
     (\<forall>row \<in> set (rows_of df). length row = 32) \<and>
     (\<exists>jn is. joined_df ph ps rh rs = Inr jn \<and>
        rows_of df = map (\<lambda>y. map (cell_at y) is) (jrows jn) \<and>
        list_all (\<lambda>i. i < length (qcolumns jn) \<and> qcolumns jn ! i \<noteq> (''r'', ''age'') \<and>
                       qcolumns jn ! i \<noteq> (''r'', ''age_lower'')) is) \<and>
     raised (main ph ps rh rs) = None \<and>
     parquet (main ph ps rh rs) = Some df \<and>
     (\<forall>e \<in> set (console (main ph ps rh rs)). shown_table e = None \<or> shown_table e = Some df)"
proof
  assume fd: "final_df ph ps rh rs = Inr df"
  from final_df_projection[OF fd] obtain jn "is" where jd: "joined_df ph ps rh rs = Inr jn"
    and sel: "list_all2 (\<lambda>i c. i < length (qcolumns jn) \<and> qcolumns jn ! i = c) is selected"
    and c: "columns df = map snd selected"
    and rows: "rows_of df = map (\<lambda>y. map (cell_at y) is) (jrows jn)"
    by blast
  have len: "length is = 32"
    using sel selected_facts(1) by (simp add: list_all2_lengthD)
  have excl: "list_all (\<lambda>i. i < length (qcolumns jn) \<and> qcolumns jn ! i \<noteq> (''r'', ''age'') \<and>
                       qcolumns jn ! i \<noteq> (''r'', ''age_lower'')) is"
    unfolding list_all_iff
  proof
    fix i assume "i \<in> set is"
    then obtain k where k: "k < length is" "is ! k = i" by (metis in_set_conv_nth)
    then have "i < length (qcolumns jn)" "qcolumns jn ! i = selected ! k" "k < length selected"
      using sel by (auto simp: list_all2_conv_all_nth)
    moreover from this have "selected ! k \<in> set selected" by simp
    ultimately show "i < length (qcolumns jn) \<and> qcolumns jn ! i \<noteq> (''r'', ''age'') \<and>
                       qcolumns jn ! i \<noteq> (''r'', ''age_lower'')"
      using selected_facts(5,6) by metis
  qed
  have rl: "\<forall>row \<in> set (rows_of df). length row = 32"
    unfolding rows using len by auto
  have m: "raised (main ph ps rh rs) = None" "parquet (main ph ps rh rs) = Some df"
    "\<forall>e \<in> set (console (main ph ps rh rs)). shown_table e = None \<or> shown_table e = Some df"
    unfolding main_outcome[OF fd] by simp_all
  show "columns df =
       [''patient_id'', ''name'', ''age'', ''gender'', ''blood_type'', ''medical_condition'',
        ''date_of_admission'', ''doctor'', ''hospital'', ''insurance_provider'', ''billing_amount'',
        ''room_number'', ''admission_type'', ''discharge_date'', ''medication'', ''test_results'',
        ''time_in_hospital'', ''n_lab_procedures'', ''n_procedures'', ''n_medications'',
        ''n_outpatient'', ''n_inpatient'', ''n_emergency'', ''medical_specialty'', ''diag_1'',
        ''diag_2'', ''diag_3'', ''glucose_test'', ''a1ctest'', ''change'', ''diabetes_med'',
        ''readmitted''] \<and>
     length (columns df) = 32 \<and>
     ''age_lower'' \<notin> set (columns df) \<and>
     (\<forall>row \<in> set (rows_of df). length row = 32) \<and>
     (\<exists>jn is. joined_df ph ps rh rs = Inr jn \<and>
        rows_of df = map (\<lambda>y. map (cell_at y) is) (jrows jn) \<and>
        list_all (\<lambda>i. i < length (qcolumns jn) \<and> qcolumns jn ! i \<noteq> (''r'', ''age'') \<and>
                       qcolumns jn ! i \<noteq> (''r'', ''age_lower'')) is) \<and>
     raised (main ph ps rh rs) = None \<and>
     parquet (main ph ps rh rs) = Some df \<and>
     (\<forall>e \<in> set (console (main ph ps rh rs)). shown_table e = None \<or> shown_table e = Some df)"
    unfolding c selected_names[symmetric]
    using selected_facts(1,7) rl jd rows excl m by auto
qed

theorem final_schema_witness:
  "final_df patient_header sample_patients readmission_header sample_readmissions = Inr sample_final \<and>
   length (columns sample_final) = 32 \<and>
   ''age_lower'' \<notin> set (columns sample_final) \<and>
   list_all (\<lambda>row. length row = 32) (rows_of sample_final) \<and>
   raised (main patient_header sample_patients readmission_header sample_readmissions) = None \<and>
   parquet (main patient_header sample_patients readmission_header sample_readmissions) =
     Some sample_final"
  using final_schema[of patient_header sample_patients readmission_header sample_readmissions
      sample_final] sample_final_df
  by (simp add: list_all_iff)

text \<open>
  C8. Whenever the 32 columns are selected, the program prints, after the sample and the
  two counts, exactly seven aggregations, each of the selected table and each under its
  title: gender distribution, average age, top-5 hospitals, top-5 doctors, readmission
  counts, average time in hospital by readmission status, average billing by admission
  type, in this order; no other aggregation is shown. (When the selection raises, nothing
  is printed.)
\<close>

theorem seven_reports:
  "(final_df ph ps rh rs = Inr df \<longrightarrow>
      List.map_filter category_of (console (main ph ps rh rs)) =
        [GenderDistribution, AverageAge, TopHospitals 5, TopDoctors 5, ReadmissionCounts,
         AvgTimeInHospitalByReadmission, AvgBillingByAdmissionType] \<and>
      length (filter is_aggregation (console (main ph ps rh rs))) = 7 \<and>
      list_all (\<lambda>e. \<not> is_aggregation e) (take 4 (console (main ph ps rh rs))) \<and>
      drop 4 (console (main ph ps rh rs)) =
        [Print ''\<newline>=== Gender Distribution ==='',
         ShowAggregation (GroupCount ''gender'') df 20 True,
         Print ''\<newline>=== Average Age ==='',
         ShowAggregation (RoundAvg ''age'' 2 ''avg_age'') df 20 True,
         Print ''\<newline>=== Top 5 Hospitals by Patient Count ==='',
         ShowAggregation (GroupCountDesc ''hospital'') df 5 False,
         Print ''\<newline>=== Top 5 Doctors by Patient Count ==='',
         ShowAggregation (GroupCountDesc ''doctor'') df 5 False,
         Print ''\<newline>=== Readmission Counts ==='',
         ShowAggregation (GroupCount ''readmitted'') df 20 True,
         Print ''\<newline>=== Average Time in Hospital by Readmission ==='',
         ShowAggregation (GroupRoundAvg ''readmitted'' ''time_in_hospital'' 2 ''avg_days'') df 20 True,
         Print ''\<newline>=== Average Billing by Admission Type ==='',
         ShowAggregation (GroupRoundAvg ''admission_type'' ''billing_amount'' 2 ''avg_billing'')
           df 20 True]) \<and>
   (final_df ph ps rh rs = Inl e \<longrightarrow> console (main ph ps rh rs) = [])"
proof (intro conjI impI)
  assume fd: "final_df ph ps rh rs = Inr df"
  show "List.map_filter category_of (console (main ph ps rh rs)) =
        [GenderDistribution, AverageAge, TopHospitals 5, TopDoctors 5, ReadmissionCounts,
         AvgTimeInHospitalByReadmission, AvgBillingByAdmissionType]"
    unfolding main_outcome[OF fd] by (simp add: List.map_filter_simps)
  show "length (filter is_aggregation (console (main ph ps rh rs))) = 7"
    unfolding main_outcome[OF fd] by simp
  show "list_all (\<lambda>e. \<not> is_aggregation e) (take 4 (console (main ph ps rh rs)))"
    unfolding main_outcome[OF fd] by simp
  show "drop 4 (console (main ph ps rh rs)) =
        [Print ''\<newline>=== Gender Distribution ==='',
         ShowAggregation (GroupCount ''gender'') df 20 True,
         Print ''\<newline>=== Average Age ==='',
         ShowAggregation (RoundAvg ''age'' 2 ''avg_age'') df 20 True,
         Print ''\<newline>=== Top 5 Hospitals by Patient Count ==='',
         ShowAggregation (GroupCountDesc ''hospital'') df 5 False,
         Print ''\<newline>=== Top 5 Doctors by Patient Count ==='',
         ShowAggregation (GroupCountDesc ''doctor'') df 5 False,
         Print ''\<newline>=== Readmission Counts ==='',
         ShowAggregation (GroupCount ''readmitted'') df 20 True,
         Print ''\<newline>=== Average Time in Hospital by Readmission ==='',
         ShowAggregation (GroupRoundAvg ''readmitted'' ''time_in_hospital'' 2 ''avg_days'') df 20 True,
         Print ''\<newline>=== Average Billing by Admission Type ==='',
         ShowAggregation (GroupRoundAvg ''admission_type'' ''billing_amount'' 2 ''avg_billing'')
           df 20 True]"
    unfolding main_outcome[OF fd] by simp
next
  assume "final_df ph ps rh rs = Inl e"
  then show "console (main ph ps rh rs) = []" by (simp add: main_def)
qed

theorem seven_reports_witness:
  "final_df patient_header sample_patients readmission_header sample_readmissions = Inr sample_final \<and>
   List.map_filter category_of
       (console (main patient_header sample_patients readmission_header sample_readmissions)) =
     [GenderDistribution, AverageAge, TopHospitals 5, TopDoctors 5, ReadmissionCounts,
      AvgTimeInHospitalByReadmission, AvgBillingByAdmissionType] \<and>
   length (filter is_aggregation
       (console (main patient_header sample_patients readmission_header sample_readmissions))) = 7 \<and>
   final_df patient_header sample_patients [''label''] sample_readmissions =
     Inl (AnalysisException ''cannot resolve age'') \<and>
   console (main patient_header sample_patients [''label''] sample_readmissions) = []"
proof -
  have e: "final_df patient_header sample_patients [''label''] sample_readmissions =
     Inl (AnalysisException ''cannot resolve age'')"
    by code_simp
  from seven_reports[of patient_header sample_patients readmission_header sample_readmissions
      sample_final] sample_final_df
  have "List.map_filter category_of
       (console (main patient_header sample_patients readmission_header sample_readmissions)) =
     [GenderDistribution, AverageAge, TopHospitals 5, TopDoctors 5, ReadmissionCounts,
      AvgTimeInHospitalByReadmission, AvgBillingByAdmissionType] \<and>
   length (filter is_aggregation
       (console (main patient_header sample_patients readmission_header sample_readmissions))) = 7"
    by blast
  moreover from seven_reports[of patient_header sample_patients "[''label'']" sample_readmissions
      _ "AnalysisException ''cannot resolve age''"] e
  have "console (main patient_header sample_patients [''label''] sample_readmissions) = []"
    by blast
  ultimately show ?thesis using sample_final_df e by blast
qed

end
